theory Spec2Isabelle
  imports Main
begin

section \<open>JavaScript numbers\<close>

text \<open>
  A JavaScript number is an IEEE 754 double. A finite double is \<open>m * 2 ^ e\<close> for integers
  \<open>m\<close> and \<open>e\<close>, written \<open>Finite m e\<close>; the two zeros are not told apart (only division
  and sign tests do, and the code has neither). Sums and products of finite doubles are
  computed exactly and then rounded to the nearest double, ties to even, with 53
  significant bits, gradual underflow from \<open>2 ^ - 1074\<close> and overflow to an infinity
  beyond the largest double. The operations accept every pair \<open>m\<close>, \<open>e\<close>, so also
  values that are no doubles; the values that jQuery returns and that literals denote
  are doubles.
\<close>

datatype number = Finite int int | PosInfinity | NegInfinity | NaN

text \<open>The number of binary digits of a positive integer.\<close>

function bit_length :: "int \<Rightarrow> int" where
  "bit_length a = (if a \<le> 0 then 0 else bit_length (a div 2) + 1)"
  by pat_completeness auto
termination
  by (relation "measure nat") auto

declare bit_length.simps [simp del]

text \<open>\<open>floor_log2 a q\<close> is the integer part of the binary logarithm of \<open>a / q\<close>.\<close>

definition floor_log2 :: "int \<Rightarrow> int \<Rightarrow> int" where
  "floor_log2 a q =
     (let d = bit_length a - bit_length q
      in if q * 2 ^ nat d \<le> a * 2 ^ nat (- d) then d else d - 1)"

text \<open>
  The positive ratio \<open>a / q\<close> rounded to 53 bits: the result is the mantissa and the
  exponent, before the test for overflow.
\<close>

definition round_pos :: "int \<Rightarrow> int \<Rightarrow> int \<times> int" where
  "round_pos a q =
     (let ex = max (floor_log2 a q - 52) (- 1074);
          n = a * 2 ^ nat (- ex);
          d = q * 2 ^ nat ex;
          quo = n div d;
          rem = n mod d
      in (if d < 2 * rem \<or> (2 * rem = d \<and> odd quo) then quo + 1 else quo, ex))"

definition overflows :: "int \<times> int \<Rightarrow> bool" where
  "overflows r = (971 < snd r \<or> (snd r = 971 \<and> 2 ^ 53 \<le> fst r))"

definition round_ratio :: "int \<Rightarrow> int \<Rightarrow> number" where
  "round_ratio p q =
     (if p = 0 then Finite 0 0
      else if 0 < p then
        (let r = round_pos p q in if overflows r then PosInfinity else Finite (fst r) (snd r))
      else
        (let r = round_pos (- p) q
         in if overflows r then NegInfinity else Finite (- fst r) (snd r)))"

definition round_dyadic :: "int \<Rightarrow> int \<Rightarrow> number" where
  "round_dyadic m e = round_ratio (m * 2 ^ nat e) (2 ^ nat (- e))"

text \<open>A decimal literal \<open>p / q\<close> of the source, with \<open>q\<close> a positive power of ten.\<close>

definition js_decimal :: "int \<Rightarrow> int \<Rightarrow> number" where
  "js_decimal p q = round_ratio p q"

definition js_neg :: "number \<Rightarrow> number" where
  "js_neg x =
     (case x of
        Finite m e \<Rightarrow> Finite (- m) e
      | PosInfinity \<Rightarrow> NegInfinity
      | NegInfinity \<Rightarrow> PosInfinity
      | NaN \<Rightarrow> NaN)"

fun js_add :: "number \<Rightarrow> number \<Rightarrow> number" where
  "js_add NaN y = NaN"
| "js_add x NaN = NaN"
| "js_add PosInfinity NegInfinity = NaN"
| "js_add NegInfinity PosInfinity = NaN"
| "js_add PosInfinity y = PosInfinity"
| "js_add NegInfinity y = NegInfinity"
| "js_add x PosInfinity = PosInfinity"
| "js_add x NegInfinity = NegInfinity"
| "js_add (Finite m1 e1) (Finite m2 e2) =
     round_dyadic (m1 * 2 ^ nat (e1 - min e1 e2) + m2 * 2 ^ nat (e2 - min e1 e2)) (min e1 e2)"

definition js_sub :: "number \<Rightarrow> number \<Rightarrow> number" where
  "js_sub x y = js_add x (js_neg y)"

definition sign_of :: "number \<Rightarrow> int" where
  "sign_of x =
     (case x of Finite m e \<Rightarrow> sgn m | PosInfinity \<Rightarrow> 1 | NegInfinity \<Rightarrow> - 1 | NaN \<Rightarrow> 0)"

fun js_mul :: "number \<Rightarrow> number \<Rightarrow> number" where
  "js_mul NaN y = NaN"
| "js_mul x NaN = NaN"
| "js_mul (Finite m1 e1) (Finite m2 e2) = round_dyadic (m1 * m2) (e1 + e2)"
| "js_mul x y =
     (if sign_of x * sign_of y = 0 then NaN
      else if 0 < sign_of x * sign_of y then PosInfinity else NegInfinity)"

text \<open>\<open>x <= y\<close> and \<open>x < y\<close>; \<open>x >= y\<close> is \<open>y <= x\<close>. Every comparison with NaN is false.\<close>

fun js_le :: "number \<Rightarrow> number \<Rightarrow> bool" where
  "js_le NaN y = False"
| "js_le x NaN = False"
| "js_le NegInfinity y = True"
| "js_le x PosInfinity = True"
| "js_le PosInfinity y = False"
| "js_le x NegInfinity = False"
| "js_le (Finite m1 e1) (Finite m2 e2) =
     (m1 * 2 ^ nat (e1 - min e1 e2) \<le> m2 * 2 ^ nat (e2 - min e1 e2))"

fun js_lt :: "number \<Rightarrow> number \<Rightarrow> bool" where
  "js_lt NaN y = False"
| "js_lt x NaN = False"
| "js_lt PosInfinity y = False"
| "js_lt x NegInfinity = False"
| "js_lt NegInfinity y = True"
| "js_lt x PosInfinity = True"
| "js_lt (Finite m1 e1) (Finite m2 e2) =
     (m1 * 2 ^ nat (e1 - min e1 e2) < m2 * 2 ^ nat (e2 - min e1 e2))"

text \<open>The numbers that \<open>||\<close> replaces by its right operand: zero and NaN.\<close>

definition falsy :: "number \<Rightarrow> bool" where
  "falsy x = (case x of Finite m e \<Rightarrow> m = 0 | NaN \<Rightarrow> True | _ \<Rightarrow> False)"

section \<open>The visibility scheduler (lib/zg.waypoints.js)\<close>

text \<open>
  The browser window is read through \<open>$window.scrollTop()\<close> and \<open>$window.height()\<close>;
  both values are given by a record.
\<close>

record window =
  win_scrollTop :: number
  win_height :: number

datatype js_error = TypeError

text \<open>
  \<open>ZG_Waypoints.inView\<close>. The optional third argument is \<open>None\<close> when the caller
  leaves it out (\<open>undefined\<close>). \<open>viewMargin || 0.1\<close> takes the default for every falsy
  value, so for \<open>undefined\<close>, for zero and for NaN. The variable \<open>viewMargin\<close> is assigned
  twice in the source: first the fraction, then the window height times the fraction.
  \<open>default_margin\<close> is the literal \<open>0.1\<close>.
\<close>

definition default_margin :: number where
  "default_margin = js_decimal 1 10"

definition inView :: "window \<Rightarrow> number \<Rightarrow> number \<Rightarrow> number option \<Rightarrow> bool" where
  "inView w elementTop elementBottom viewMargin =
     (let viewMargin1 =
            (case viewMargin of
               None \<Rightarrow> default_margin
             | Some m \<Rightarrow> if falsy m then default_margin else m);
          viewTop = win_scrollTop w;
          viewBottom = js_add viewTop (win_height w);
          viewMargin2 = js_mul (win_height w) viewMargin1
      in (js_le (js_add viewTop viewMargin2) elementTop \<and>
          js_le elementTop (js_sub viewBottom viewMargin2)) \<or>
         (js_le (js_add viewTop viewMargin2) elementBottom \<and>
          js_le elementBottom (js_sub viewBottom viewMargin2)))"

text \<open>
  The specification's reading of the test, written from its words: the viewport
  \<open>[viewTop, viewBottom]\<close> shrunk on each edge by the margin fraction of its height, in
  the arithmetic of the language.
\<close>

definition shrunk_top :: "window \<Rightarrow> number \<Rightarrow> number" where
  "shrunk_top w fraction = js_add (win_scrollTop w) (js_mul fraction (win_height w))"

definition shrunk_bottom :: "window \<Rightarrow> number \<Rightarrow> number" where
  "shrunk_bottom w fraction =
     js_sub (js_add (win_scrollTop w) (win_height w)) (js_mul fraction (win_height w))"

definition within_shrunk_view :: "window \<Rightarrow> number \<Rightarrow> number \<Rightarrow> bool" where
  "within_shrunk_view w fraction y =
     (js_le (shrunk_top w fraction) y \<and> js_le y (shrunk_bottom w fraction))"

text \<open>
  A waypoint is the object pushed by \<open>ZG_Waypoints.add\<close>: the coordinates, the callback
  (\<open>None\<close> when the caller passed a falsy value), the extra arguments for the callback,
  and the \<open>oneShot\<close> option (\<open>False\<close> when the options leave it out). The type \<open>'f\<close>
  names callbacks, \<open>'a\<close> is the type of their arguments.
\<close>

record ('f, 'a) waypoint =
  wp_top :: number
  wp_bottom :: number
  wp_callback :: "'f option"
  wp_callbackArgs :: "'a list"
  wp_oneShot :: bool

text \<open>
  The static state of \<open>ZG_Waypoints\<close>: the array \<open>ZG_Waypoints.waypoints\<close>, and the
  number of bindings of \<open>ZG_Waypoints.update\<close> to the window's scroll event. jQuery's
  \<open>on\<close> adds one binding per call, also for a handler that is bound already; \<open>off\<close> with
  a handler removes every binding of that handler.
\<close>

record ('f, 'a) zg_waypoints =
  waypoints :: "('f, 'a) waypoint list"
  scrollHandlers :: nat

definition add :: "number \<Rightarrow> number \<Rightarrow> 'f option \<Rightarrow> bool \<Rightarrow> 'a list \<Rightarrow>
    ('f, 'a) zg_waypoints \<Rightarrow> ('f, 'a) zg_waypoints" where
  "add top' bottom' callback oneShot callbackArgs z =
     z\<lparr>waypoints := waypoints z @
          [\<lparr>wp_top = top', wp_bottom = bottom', wp_callback = callback,
            wp_callbackArgs = callbackArgs, wp_oneShot = oneShot\<rparr>],
       scrollHandlers := Suc (scrollHandlers z)\<rparr>"

text \<open>\<open>Array.prototype.splice(i, 1)\<close>: the element at index \<open>i\<close> is taken out.\<close>

definition splice1 :: "nat \<Rightarrow> 'x list \<Rightarrow> 'x list" where
  "splice1 i xs = take i xs @ drop (Suc i) xs"

text \<open>
  \<open>waypoint.callback.apply(waypoint, waypoint.callbackArgs)\<close>. A callback is a function of
  the caller; \<open>app\<close> interprets a callback name, with the waypoint as \<open>this\<close> and the
  arguments, on the caller's state \<open>'w\<close>. Callbacks are taken to return normally and to
  leave the waypoint array alone, as the one callback that hidpi.js registers does.
\<close>

definition invoke :: "('f \<Rightarrow> ('f, 'a) waypoint \<Rightarrow> 'a list \<Rightarrow> 'w \<Rightarrow> 'w) \<Rightarrow> ('f, 'a) waypoint \<Rightarrow> 'w \<Rightarrow> 'w" where
  "invoke app waypoint world =
     (case wp_callback waypoint of
        None \<Rightarrow> world
      | Some f \<Rightarrow> app f waypoint (wp_callbackArgs waypoint) world)"

text \<open>
  The loop \<open>while ( i-- )\<close> of \<open>ZG_Waypoints.update\<close>: the argument \<open>Suc i\<close> is the value
  of \<open>i\<close> that the test reads, the body runs with \<open>i\<close>. Reading a property of
  \<open>waypoints[i]\<close> beyond the end of the array would raise a TypeError.
\<close>

fun update_loop :: "('f \<Rightarrow> ('f, 'a) waypoint \<Rightarrow> 'a list \<Rightarrow> 'w \<Rightarrow> 'w) \<Rightarrow> window \<Rightarrow> nat \<Rightarrow>
    ('f, 'a) waypoint list \<times> 'w \<Rightarrow> js_error + ('f, 'a) waypoint list \<times> 'w" where
  "update_loop app win 0 st = Inr st"
| "update_loop app win (Suc i) (wps, world) =
     (if i < length wps then
        (let waypoint = wps ! i in
         if inView win (wp_top waypoint) (wp_bottom waypoint) None then
           update_loop app win i
             (if wp_oneShot waypoint then splice1 i wps else wps, invoke app waypoint world)
         else update_loop app win i (wps, world))
      else Inl TypeError)"

definition update :: "('f \<Rightarrow> ('f, 'a) waypoint \<Rightarrow> 'a list \<Rightarrow> 'w \<Rightarrow> 'w) \<Rightarrow> window \<Rightarrow>
    ('f, 'a) zg_waypoints \<times> 'w \<Rightarrow> js_error + ('f, 'a) zg_waypoints \<times> 'w" where
  "update app win st =
     (case st of (z, world) \<Rightarrow>
        (case update_loop app win (length (waypoints z)) (waypoints z, world) of
           Inl e \<Rightarrow> Inl e
         | Inr (wps, world') \<Rightarrow>
             Inr (z\<lparr>waypoints := wps,
                    scrollHandlers := (if wps = [] then 0 else scrollHandlers z)\<rparr>, world')))"

section \<open>The document\<close>

text \<open>
  A DOM node with what hidpi.js reads and writes: the tag name, the class list, the
  attributes, the style properties, and the geometry that jQuery reports (\<open>width()\<close>,
  \<open>height()\<close>, \<open>offset().top\<close>, \<open>outerWidth()\<close>, \<open>outerHeight()\<close>). The geometry is
  the browser's layout and is given.
\<close>

datatype css_value = CssStr string | CssPx number

record element =
  el_parent :: "nat option"
  tagName :: string
  classes :: "string list"
  attrs :: "(string \<times> string) list"
  css :: "(string \<times> css_value) list"
  el_width :: number
  el_height :: number
  el_offsetTop :: number
  el_outerWidth :: number
  el_outerHeight :: number

definition hasClass :: "string \<Rightarrow> element \<Rightarrow> bool" where
  "hasClass c e = (c \<in> set (classes e))"

definition addClass :: "string \<Rightarrow> element \<Rightarrow> element" where
  "addClass c e = e\<lparr>classes := (if c \<in> set (classes e) then classes e else classes e @ [c])\<rparr>"

definition removeClass :: "string \<Rightarrow> element \<Rightarrow> element" where
  "removeClass c e = e\<lparr>classes := filter (\<lambda>x. x \<noteq> c) (classes e)\<rparr>"

definition attr_get :: "string \<Rightarrow> element \<Rightarrow> string option" where
  "attr_get n e = map_of (attrs e) n"

definition attr_set :: "string \<Rightarrow> string \<Rightarrow> element \<Rightarrow> element" where
  "attr_set n v e = e\<lparr>attrs := (n, v) # filter (\<lambda>kv. fst kv \<noteq> n) (attrs e)\<rparr>"

definition removeAttr :: "string \<Rightarrow> element \<Rightarrow> element" where
  "removeAttr n e = e\<lparr>attrs := filter (\<lambda>kv. fst kv \<noteq> n) (attrs e)\<rparr>"

text \<open>The computed value of \<open>position\<close> is \<open>static\<close> where no style sets it.\<close>

definition css_get :: "string \<Rightarrow> element \<Rightarrow> css_value" where
  "css_get prop e =
     (case map_of (css e) prop of
        Some v \<Rightarrow> v
      | None \<Rightarrow> if prop = ''position'' then CssStr ''static'' else CssStr [])"

definition css_set :: "string \<Rightarrow> css_value \<Rightarrow> element \<Rightarrow> element" where
  "css_set prop v e = e\<lparr>css := (prop, v) # filter (\<lambda>kv. fst kv \<noteq> prop) (css e)\<rparr>"

text \<open>
  An image loader made by \<open>$( new Image )\<close> in \<open>preloadHiDPIImage\<close>: the element passed
  as event data, the source it was given (\<open>None\<close> when \<open>data( "hidpi-src" )\<close> is undefined:
  \<open>attr( "src", undefined )\<close> sets nothing and no fetch starts), and whether its load or
  error event has fired.
\<close>

record loader =
  ld_item :: nat
  ld_src :: "string option"
  ld_done :: bool

text \<open>
  The page as hidpi.js sees it. Nodes live in a store addressed by node identity; a
  jQuery object wrapping one node is that identity. \<open>document\<close> lists the nodes attached
  to the document, in document order. \<open>fading\<close> holds the overlays whose \<open>fadeOut\<close> is
  running, \<open>console\<close> the lines written by \<open>console.log\<close>.
\<close>

record page =
  nodes :: "nat \<Rightarrow> element"
  next_node :: nat
  document :: "nat list"
  loaders :: "loader list"
  fading :: "nat list"
  console :: "(string \<times> string) list"

definition on_node :: "nat \<Rightarrow> (element \<Rightarrow> element) \<Rightarrow> page \<Rightarrow> page" where
  "on_node i f p = p\<lparr>nodes := (nodes p)(i := f (nodes p i))\<rparr>"

fun insert_after :: "nat \<Rightarrow> nat \<Rightarrow> nat list \<Rightarrow> nat list" where
  "insert_after x y [] = []"
| "insert_after x y (z # zs) = (if z = x then z # y # zs else z # insert_after x y zs)"

text \<open>\<open>new_node\<close> allocates a node that is not attached to the document.\<close>

definition new_node :: "element \<Rightarrow> page \<Rightarrow> nat \<times> page" where
  "new_node e p = (next_node p, p\<lparr>nodes := (nodes p)(next_node p := e),
                                  next_node := Suc (next_node p)\<rparr>)"

text \<open>
  \<open>prev()\<close>: the sibling just before a node. \<open>remove()\<close>: the node leaves the document.
\<close>

definition prev_sibling :: "nat \<Rightarrow> page \<Rightarrow> nat option" where
  "prev_sibling i p =
     (if i \<in> set (document p) then
        (case filter (\<lambda>j. el_parent (nodes p j) = el_parent (nodes p i))
                (rev (takeWhile (\<lambda>j. j \<noteq> i) (document p))) of
           [] \<Rightarrow> None
         | j # _ \<Rightarrow> Some j)
      else None)"

definition remove_node :: "nat \<Rightarrow> page \<Rightarrow> page" where
  "remove_node i p =
     (on_node i (\<lambda>e. e\<lparr>el_parent := None\<rparr>) p)\<lparr>document := filter (\<lambda>j. j \<noteq> i) (document p)\<rparr>"

section \<open>The image substitution controller (hidpi.js)\<close>

definition PRELOAD_SCHEME :: string where
  "PRELOAD_SCHEME = ''lazy''"

definition HIDPI_BREAKPOINT :: number where
  "HIDPI_BREAKPOINT = Finite 1024 0"

text \<open>
  The browser: the window, the scheduler's static state and the page. hidpi.js registers
  one callback with the scheduler, \<open>preloadHiDPIImage\<close>, with the element as its argument.
\<close>

datatype callback = PreloadHiDPIImage

record browser =
  the_window :: window
  zg :: "(callback, nat) zg_waypoints"
  page :: page

definition preloadHiDPIImage :: "nat \<Rightarrow> page \<Rightarrow> page" where
  "preloadHiDPIImage item p =
     (let p1 = on_node item (addClass ''hidpi-loading'')
                 (on_node item (removeClass ''hidpi-pending'')
                   (on_node item (removeClass ''hidpi-queued'') p))
      in p1\<lparr>loaders := loaders p1 @
              [\<lparr>ld_item = item, ld_src = attr_get ''data-hidpi-src'' (nodes p1 item),
                ld_done = False\<rparr>]\<rparr>)"

text \<open>
  The interpretation of the registered callback. It is registered with the element as
  its one argument (line 80 of hidpi.js), so the empty argument list does not arise.
\<close>

fun apply_callback :: "callback \<Rightarrow> (callback, nat) waypoint \<Rightarrow> nat list \<Rightarrow> page \<Rightarrow> page" where
  "apply_callback PreloadHiDPIImage this (item # rest) p = preloadHiDPIImage item p"
| "apply_callback PreloadHiDPIImage this [] p = p"

text \<open>The body of the \<open>each\<close> in \<open>checkForHiDPIElements\<close>, for one selected element.\<close>

definition each_item :: "nat \<Rightarrow> browser \<Rightarrow> browser" where
  "each_item item b =
     (let top' = el_offsetTop (nodes (page b) item);
          bottom' = js_add top' (el_height (nodes (page b) item))
      in if ''immediate'' = PRELOAD_SCHEME \<or> inView (the_window b) top' bottom' None then
           b\<lparr>page := preloadHiDPIImage item (page b)\<rparr>
         else if ''queued'' = PRELOAD_SCHEME then b
         else
           b\<lparr>page := on_node item (addClass ''hidpi-pending'') (page b),
             zg := add top' bottom' (Some PreloadHiDPIImage) True [item] (zg b)\<rparr>)"

text \<open>
  \<open>checkForHiDPIElements\<close>: the selection \<open>$( ".hidpi-ready" )\<close> in document order, the
  filter on the width, \<open>removeClass\<close> on the whole selection, then \<open>each\<close>.
\<close>

definition checkForHiDPIElements :: "browser \<Rightarrow> browser" where
  "checkForHiDPIElements b =
     (let ready = filter (\<lambda>i. hasClass ''hidpi-ready'' (nodes (page b) i)) (document (page b));
          selected = filter (\<lambda>i. js_lt HIDPI_BREAKPOINT (el_width (nodes (page b) i))) ready;
          b1 = b\<lparr>page := fold (\<lambda>i. on_node i (removeClass ''hidpi-ready'')) selected (page b)\<rparr>
      in fold each_item selected b1)"

text \<open>
  JavaScript values that \<open>hiDPILoaded\<close> binds to \<open>$parent\<close>: a jQuery object wrapping
  nodes, or a function object. Line 110 reads \<open>$parent = $item.parent\<close>, without a call:
  the value is the method \<open>jQuery.fn.parent\<close> itself. A function object has no property
  \<open>css\<close>, so calling \<open>$parent.css( ... )\<close> raises a TypeError.
\<close>

datatype js_value = JQuery "nat list" | Function string

definition call_css_get :: "js_value \<Rightarrow> string \<Rightarrow> page \<Rightarrow> js_error + css_value option" where
  "call_css_get v prop p =
     (case v of
        Function name \<Rightarrow> Inl TypeError
      | JQuery [] \<Rightarrow> Inr None
      | JQuery (i # rest) \<Rightarrow> Inr (Some (css_get prop (nodes p i))))"

definition call_css_set :: "js_value \<Rightarrow> string \<Rightarrow> css_value \<Rightarrow> page \<Rightarrow> js_error + page" where
  "call_css_set v prop x p =
     (case v of
        Function name \<Rightarrow> Inl TypeError
      | JQuery is \<Rightarrow> Inr (fold (\<lambda>i. on_node i (css_set prop x)) is p))"

text \<open>
  The tail shared by both branches of \<open>hiDPILoaded\<close>: \<open>fadeOut\<close> starts on the overlay
  (its completion is a later event), the element gets the classes \<open>hidpi-animating\<close> and
  \<open>hidpi-loaded\<close> and loses the attribute \<open>data-hidpi-src\<close>.
\<close>

definition loaded_tail :: "nat \<Rightarrow> nat \<Rightarrow> page \<Rightarrow> page" where
  "loaded_tail item overlay p =
     on_node item (removeAttr ''data-hidpi-src'')
       (on_node item (addClass ''hidpi-loaded'')
         (on_node item (addClass ''hidpi-animating'')
           (p\<lparr>fading := fading p @ [overlay]\<rparr>)))"

text \<open>
  The branch of \<open>hiDPILoaded\<close> for an IMG element, lines 116 to 130, with \<open>$parent\<close>
  given. The clone copies the element after \<open>hidpi-loading\<close> is removed; an IMG element
  has no children, so \<open>insertAfter\<close> puts the clone next to it in document order.
\<close>

definition loaded_img :: "js_value \<Rightarrow> nat \<Rightarrow> string \<Rightarrow> page \<Rightarrow> js_error + nat \<times> page" where
  "loaded_img parent' item src p =
     (case call_css_get parent' ''position'' p of
        Inl e \<Rightarrow> Inl e
      | Inr pos \<Rightarrow>
          (case (if pos = Some (CssStr ''static'')
                 then call_css_set parent' ''position'' (CssStr ''relative'') p
                 else Inr p) of
             Inl e \<Rightarrow> Inl e
           | Inr p1 \<Rightarrow>
               (let p2 = on_node item (removeClass ''hidpi-loading'') p1;
                    (overlay, p3) = new_node (nodes p2 item) p2;
                    p4 = on_node overlay (addClass ''hidpi-overlay'')
                           (on_node overlay (addClass ''hidpi-clone'') p3);
                    p5 = on_node overlay (css_set ''left'' (CssPx (Finite 0 0)))
                           (on_node overlay (css_set ''top'' (CssPx (Finite 0 0)))
                             (on_node overlay (css_set ''position'' (CssStr ''absolute'')) p4));
                    p6 = p5\<lparr>document := insert_after item overlay (document p5)\<rparr>;
                    p7 = on_node item (attr_set ''src'' src) p6
                in Inr (overlay, p7))))"

text \<open>
  The branch for any other element, lines 137 to 152. The new \<open>div\<close> becomes the first
  child of the element; its geometry is that of the box it is sized to.
\<close>

definition loaded_container :: "nat \<Rightarrow> string \<Rightarrow> page \<Rightarrow> nat \<times> page" where
  "loaded_container item src p =
     (let p1 = (if css_get ''position'' (nodes p item) = CssStr ''static''
                then on_node item (css_set ''position'' (CssStr ''relative'')) p else p);
          it = nodes p1 item;
          (overlay, p2) = new_node
             \<lparr>el_parent = Some item, tagName = ''DIV'', classes = [''hidpi-overlay''],
              attrs = [],
              css = [(''background'', css_get ''background'' it),
                     (''height'', CssPx (el_outerHeight it)),
                     (''width'', CssPx (el_outerWidth it)),
                     (''left'', CssPx (Finite 0 0)), (''top'', CssPx (Finite 0 0)),
                     (''position'', CssStr ''absolute'')],
              el_width = el_outerWidth it, el_height = el_outerHeight it,
              el_offsetTop = el_offsetTop it,
              el_outerWidth = el_outerWidth it, el_outerHeight = el_outerHeight it\<rparr> p1;
          p3 = p2\<lparr>document := insert_after item overlay (document p2)\<rparr>;
          p4 = on_node item (removeClass ''hidpi-loading'')
                 (on_node item (css_set ''backgroundImage'' (CssStr (''url('' @ src @ '')''))) p3)
      in (overlay, p4))"

text \<open>
  \<open>hiDPILoaded\<close>, the handler of the loader's load event: \<open>item\<close> is \<open>event.data\<close>,
  \<open>src\<close> is \<open>this.src\<close>.
\<close>

definition hiDPILoaded :: "nat \<Rightarrow> string \<Rightarrow> page \<Rightarrow> js_error + page" where
  "hiDPILoaded item src p =
     (let parent' = Function ''parent'' in
      if tagName (nodes p item) = ''IMG'' then
        (case loaded_img parent' item src p of
           Inl e \<Rightarrow> Inl e
         | Inr (overlay, p1) \<Rightarrow> Inr (loaded_tail item overlay p1))
      else
        (case loaded_container item src p of
           (overlay, p1) \<Rightarrow> Inr (loaded_tail item overlay p1)))"

text \<open>\<open>hiDPIError\<close>, the handler of the loader's error event, lines 177 to 182.\<close>

definition hiDPIError :: "nat \<Rightarrow> string \<Rightarrow> page \<Rightarrow> page" where
  "hiDPIError item src p =
     on_node item (addClass ''hidpi-error'')
       (on_node item (removeClass ''hidpi-processing'')
         (p\<lparr>console := console p @ [(''HiDPI load error'', src)]\<rparr>))"

text \<open>\<open>hiDPIAnimationComplete\<close>, called with the overlay as \<open>this\<close> when its fade ends.\<close>

definition hiDPIAnimationComplete :: "nat \<Rightarrow> page \<Rightarrow> page" where
  "hiDPIAnimationComplete this p =
     (let p1 = (if tagName (nodes p this) = ''IMG'' then
                  (case prev_sibling this p of
                     None \<Rightarrow> p
                   | Some q \<Rightarrow> on_node q (removeClass ''hidpi-animating'') p)
                else
                  (case el_parent (nodes p this) of
                     None \<Rightarrow> p
                   | Some q \<Rightarrow> on_node q (removeClass ''hidpi-animating'') p))
      in remove_node this p1)"

section \<open>Events\<close>

text \<open>
  One scroll event of the window: jQuery calls every handler bound when the event is
  dispatched, so \<open>ZG_Waypoints.update\<close> runs once per binding, also when an earlier run
  has unbound it.
\<close>

fun dispatch_scroll :: "('f \<Rightarrow> ('f, 'a) waypoint \<Rightarrow> 'a list \<Rightarrow> 'w \<Rightarrow> 'w) \<Rightarrow> window \<Rightarrow> nat \<Rightarrow>
    ('f, 'a) zg_waypoints \<times> 'w \<Rightarrow> js_error + ('f, 'a) zg_waypoints \<times> 'w" where
  "dispatch_scroll app win 0 st = Inr st"
| "dispatch_scroll app win (Suc n) st =
     (case update app win st of
        Inl e \<Rightarrow> Inl e
      | Inr st' \<Rightarrow> dispatch_scroll app win n st')"

definition scroll_event :: "('f \<Rightarrow> ('f, 'a) waypoint \<Rightarrow> 'a list \<Rightarrow> 'w \<Rightarrow> 'w) \<Rightarrow> window \<Rightarrow>
    ('f, 'a) zg_waypoints \<times> 'w \<Rightarrow> js_error + ('f, 'a) zg_waypoints \<times> 'w" where
  "scroll_event app win st = dispatch_scroll app win (scrollHandlers (fst st)) st"

text \<open>A sequence of scroll events, each with the window as it is at that event.\<close>

fun scroll_events :: "('f \<Rightarrow> ('f, 'a) waypoint \<Rightarrow> 'a list \<Rightarrow> 'w \<Rightarrow> 'w) \<Rightarrow> window list \<Rightarrow>
    ('f, 'a) zg_waypoints \<times> 'w \<Rightarrow> js_error + ('f, 'a) zg_waypoints \<times> 'w" where
  "scroll_events app [] st = Inr st"
| "scroll_events app (win # wins) st =
     (case scroll_event app win st of
        Inl e \<Rightarrow> Inl e
      | Inr st' \<Rightarrow> scroll_events app wins st')"

text \<open>A sequence of direct calls of \<open>update\<close>, each with the window as it is at that call.\<close>

fun updates :: "('f \<Rightarrow> ('f, 'a) waypoint \<Rightarrow> 'a list \<Rightarrow> 'w \<Rightarrow> 'w) \<Rightarrow> window list \<Rightarrow>
    ('f, 'a) zg_waypoints \<times> 'w \<Rightarrow> js_error + ('f, 'a) zg_waypoints \<times> 'w" where
  "updates app [] st = Inr st"
| "updates app (win # wins) st =
     (case update app win st of
        Inl e \<Rightarrow> Inl e
      | Inr st' \<Rightarrow> updates app wins st')"

text \<open>
  A caller that records each callback invocation: the state is the list of the
  invocations so far, each entry the waypoint whose callback was applied (it carries the
  callback and the arguments).
\<close>

definition record_call :: "'f \<Rightarrow> ('f, 'a) waypoint \<Rightarrow> 'a list \<Rightarrow>
    ('f, 'a) waypoint list \<Rightarrow> ('f, 'a) waypoint list" where
  "record_call f this args calls = calls @ [this]"

text \<open>
  What happens to the browser between two runs of the script's handlers: a call of
  \<open>checkForHiDPIElements\<close> (from the timers, DOM ready, or the debounced resize), a scroll
  to a new position, the load or the error event of a loader (at most one of them, and
  only for a loader that was given a source; \<open>loader_fires\<close> gives the event data and
  \<open>this.src\<close>), the end of an overlay's fade, and the parser attaching one more element at
  the end of the document while the page is still loading (the reason for the polling
  timer). An exception leaves the handler that raised it; \<open>hiDPILoaded\<close> raises before it
  has changed anything, and \<open>ZG_Waypoints.update\<close> raises nothing (lemma \<open>update_eq\<close>
  below), so the error branch of the scroll event is never taken.
\<close>

datatype event =
  Scan | Scroll number | LoadSuccess nat | LoadError nat | FadeComplete nat | Parse element

definition loader_fires :: "nat \<Rightarrow> page \<Rightarrow> (nat \<times> string) option" where
  "loader_fires k p =
     (if k < length (loaders p) \<and> \<not> ld_done (loaders p ! k) then
        (case ld_src (loaders p ! k) of
           None \<Rightarrow> None
         | Some src \<Rightarrow> Some (ld_item (loaders p ! k), src))
      else None)"

definition mark_done :: "nat \<Rightarrow> page \<Rightarrow> page" where
  "mark_done k p = p\<lparr>loaders := (loaders p)[k := (loaders p ! k)\<lparr>ld_done := True\<rparr>]\<rparr>"

fun step :: "event \<Rightarrow> browser \<Rightarrow> browser" where
  "step Scan b = checkForHiDPIElements b"
| "step (Scroll y) b =
     (let b1 = b\<lparr>the_window := (the_window b)\<lparr>win_scrollTop := y\<rparr>\<rparr> in
      case scroll_event apply_callback (the_window b1) (zg b1, page b1) of
        Inl e \<Rightarrow> b1
      | Inr (z, p) \<Rightarrow> b1\<lparr>zg := z, page := p\<rparr>)"
| "step (LoadSuccess k) b =
     (case loader_fires k (page b) of
        None \<Rightarrow> b
      | Some (item, src) \<Rightarrow>
          (case hiDPILoaded item src (mark_done k (page b)) of
             Inl e \<Rightarrow> b\<lparr>page := mark_done k (page b)\<rparr>
           | Inr p \<Rightarrow> b\<lparr>page := p\<rparr>))"
| "step (LoadError k) b =
     (case loader_fires k (page b) of
        None \<Rightarrow> b
      | Some (item, src) \<Rightarrow> b\<lparr>page := hiDPIError item src (mark_done k (page b))\<rparr>)"
| "step (FadeComplete i) b =
     (if i \<in> set (fading (page b)) then
        b\<lparr>page := hiDPIAnimationComplete i ((page b)\<lparr>fading := remove1 i (fading (page b))\<rparr>)\<rparr>
      else b)"
| "step (Parse e) b =
     (case new_node e (page b) of
        (i, p) \<Rightarrow> b\<lparr>page := p\<lparr>document := document p @ [i]\<rparr>\<rparr>)"

definition run :: "event list \<Rightarrow> browser \<Rightarrow> browser" where
  "run evs b = fold step evs b"

section \<open>Notions used in the properties\<close>

text \<open>A waypoint is hit when \<open>update\<close> finds it in view, with the default margin.\<close>

definition hit :: "window \<Rightarrow> ('f, 'a) waypoint \<Rightarrow> bool" where
  "hit win w = inView win (wp_top w) (wp_bottom w) None"

text \<open>The calls of \<open>preloadHiDPIImage\<close> made so far for an element: one loader each.\<close>

definition load_count :: "nat \<Rightarrow> page \<Rightarrow> nat" where
  "load_count i p = length (filter (\<lambda>l. ld_item l = i) (loaders p))"

text \<open>The waypoints whose callback arguments hold an element.\<close>

definition regions_of :: "nat \<Rightarrow> ('f, nat) zg_waypoints \<Rightarrow> ('f, nat) waypoint list" where
  "regions_of i z = filter (\<lambda>w. i \<in> set (wp_callbackArgs w)) (waypoints z)"

text \<open>The lifecycle markers among the classes of an element.\<close>

definition lifecycle_classes :: "string list" where
  "lifecycle_classes =
     [''hidpi-ready'', ''hidpi-pending'', ''hidpi-loading'', ''hidpi-loaded'', ''hidpi-error'']"

definition state_markers :: "element \<Rightarrow> string list" where
  "state_markers e = filter (\<lambda>c. c \<in> set lifecycle_classes) (classes e)"

text \<open>
  The browser when the script starts: nothing is registered with the scheduler and no
  loader exists. The document is arbitrary.
\<close>

definition initial :: "browser \<Rightarrow> bool" where
  "initial b =
     (waypoints (zg b) = [] \<and> loaders (page b) = [] \<and>
      (\<forall>i \<in> set (document (page b)). i < next_node (page b)))"

text \<open>
  Whether \<open>checkForHiDPIElements\<close> finds an element in view, and the waypoint that it
  registers for an element that is not.
\<close>

definition item_in_view :: "window \<Rightarrow> page \<Rightarrow> nat \<Rightarrow> bool" where
  "item_in_view win p j =
     inView win (el_offsetTop (nodes p j))
       (js_add (el_offsetTop (nodes p j)) (el_height (nodes p j))) None"

definition region_for :: "page \<Rightarrow> nat \<Rightarrow> (callback, nat) waypoint" where
  "region_for p j =
     \<lparr>wp_top = el_offsetTop (nodes p j),
      wp_bottom = js_add (el_offsetTop (nodes p j)) (el_height (nodes p j)),
      wp_callback = Some PreloadHiDPIImage, wp_callbackArgs = [j], wp_oneShot = True\<rparr>"

text \<open>The elements that \<open>checkForHiDPIElements\<close> selects.\<close>

definition selected :: "page \<Rightarrow> nat list" where
  "selected p =
     filter (\<lambda>i. js_lt HIDPI_BREAKPOINT (el_width (nodes p i)))
       (filter (\<lambda>i. hasClass ''hidpi-ready'' (nodes p i)) (document p))"

text \<open>
  What every handler other than the selection of \<open>checkForHiDPIElements\<close> leaves as it is
  on a node: the geometry and the ready marker; the error marker is never taken away.
\<close>

definition keeps :: "element \<Rightarrow> element \<Rightarrow> bool" where
  "keeps e e' =
     (el_width e' = el_width e \<and> el_height e' = el_height e \<and>
      el_offsetTop e' = el_offsetTop e \<and>
      hasClass ''hidpi-ready'' e' = hasClass ''hidpi-ready'' e \<and>
      (hasClass ''hidpi-error'' e \<longrightarrow> hasClass ''hidpi-error'' e'))"

definition advances :: "page \<Rightarrow> page \<Rightarrow> bool" where
  "advances p p' =
     (next_node p \<le> next_node p' \<and>
      (\<forall>i. i < next_node p \<longrightarrow> keeps (nodes p i) (nodes p' i)) \<and>
      (\<forall>i \<in> set (document p'). i \<in> set (document p) \<or> (next_node p \<le> i \<and> i < next_node p')))"

text \<open>
  The invariant of the browser: attached nodes are allocated; an element with a loader
  is not ready and has no waypoint; every waypoint is the one registered for an
  allocated element that is not ready.
\<close>

definition consistent :: "browser \<Rightarrow> bool" where
  "consistent b =
     ((\<forall>i \<in> set (document (page b)). i < next_node (page b)) \<and>
      (\<forall>l \<in> set (loaders (page b)).
          ld_item l < next_node (page b) \<and>
          \<not> hasClass ''hidpi-ready'' (nodes (page b) (ld_item l)) \<and>
          regions_of (ld_item l) (zg b) = []) \<and>
      (\<forall>w \<in> set (waypoints (zg b)).
          \<exists>j. j < next_node (page b) \<and> w = region_for (page b) j \<and>
              \<not> hasClass ''hidpi-ready'' (nodes (page b) j)))"

text \<open>
  An element that no handler will start a load for: it is not selected by
  \<open>checkForHiDPIElements\<close> and no waypoint is registered for it.
\<close>

definition dormant :: "nat \<Rightarrow> browser \<Rightarrow> bool" where
  "dormant j b =
     (j < next_node (page b) \<and> regions_of j (zg b) = [] \<and>
      \<not> (hasClass ''hidpi-ready'' (nodes (page b) j) \<and>
         js_lt HIDPI_BREAKPOINT (el_width (nodes (page b) j))))"

section \<open>Sample data\<close>

definition sample_window :: window where
  "sample_window = \<lparr>win_scrollTop = Finite 0 0, win_height = Finite 1000 0\<rparr>"

definition sample_waypoint :: "(nat, nat) waypoint" where
  "sample_waypoint =
     \<lparr>wp_top = Finite 500 0, wp_bottom = Finite 600 0, wp_callback = Some 0,
      wp_callbackArgs = [7],
      wp_oneShot = True\<rparr>"

definition sample_zg :: "(nat, nat) zg_waypoints" where
  "sample_zg = \<lparr>waypoints = [sample_waypoint], scrollHandlers = 1\<rparr>"

text \<open>
  Windows and offsets at which the rounding of doubles decides the test: \<open>768 * 0.1\<close>
  is the double above \<open>76.8\<close>, and \<open>643 * 0.1\<close> is the double \<open>64.3\<close>.
\<close>

definition window_768 :: window where
  "window_768 = \<lparr>win_scrollTop = Finite 0 0, win_height = Finite 768 0\<rparr>"

definition window_643 :: window where
  "window_643 = \<lparr>win_scrollTop = Finite 0 0, win_height = Finite 643 0\<rparr>"

definition window_100 :: window where
  "window_100 = \<lparr>win_scrollTop = Finite 0 0, win_height = Finite 100 0\<rparr>"


text \<open>
  A page with five elements: a wide container and a wide image in view, a wide container
  far below the viewport, a narrow image, and a container that was substituted before. All
  carry the attribute \<open>data-hidpi-src\<close>. \<open>sample_scanned\<close> is the browser after the first
  call of \<open>checkForHiDPIElements\<close>.
\<close>

definition blank_element :: element where
  "blank_element =
     \<lparr>el_parent = None, tagName = ''DIV'', classes = [], attrs = [], css = [],
      el_width = Finite 0 0, el_height = Finite 0 0, el_offsetTop = Finite 0 0,
      el_outerWidth = Finite 0 0, el_outerHeight = Finite 0 0\<rparr>"

definition sample_element :: "string \<Rightarrow> string \<Rightarrow> int \<Rightarrow> int \<Rightarrow> element" where
  "sample_element tag marker width' top' =
     \<lparr>el_parent = None, tagName = tag, classes = [marker],
      attrs = [(''data-hidpi-src'', ''hi.jpg'')], css = [],
      el_width = Finite width' 0, el_height = Finite 300 0, el_offsetTop = Finite top' 0,
      el_outerWidth = Finite width' 0, el_outerHeight = Finite 300 0\<rparr>"

definition sample_page :: page where
  "sample_page =
     \<lparr>nodes = (\<lambda>i. blank_element)
        (0 := sample_element ''DIV'' ''hidpi-ready'' 1200 200,
         1 := sample_element ''IMG'' ''hidpi-ready'' 1200 400,
         2 := sample_element ''DIV'' ''hidpi-ready'' 1200 5000,
         3 := sample_element ''IMG'' ''hidpi-ready'' 800 200,
         4 := sample_element ''DIV'' ''hidpi-loaded'' 1200 600),
      next_node = 5, document = [0, 1, 2, 3, 4], loaders = [], fading = [], console = []\<rparr>"

definition sample_browser :: browser where
  "sample_browser =
     \<lparr>the_window = sample_window, zg = \<lparr>waypoints = [], scrollHandlers = 0\<rparr>,
      page = sample_page\<rparr>"

definition sample_scanned :: browser where
  "sample_scanned =
     \<lparr>the_window = sample_window,
      zg = \<lparr>waypoints = [\<lparr>wp_top = Finite 5000 0,
                           wp_bottom = js_add (Finite 5000 0) (Finite 300 0),
                           wp_callback = Some PreloadHiDPIImage,
                           wp_callbackArgs = [2], wp_oneShot = True\<rparr>],
            scrollHandlers = 1\<rparr>,
      page = \<lparr>nodes = (\<lambda>i. blank_element)
        (0 := sample_element ''DIV'' ''hidpi-loading'' 1200 200,
         1 := sample_element ''IMG'' ''hidpi-loading'' 1200 400,
         2 := sample_element ''DIV'' ''hidpi-pending'' 1200 5000,
         3 := sample_element ''IMG'' ''hidpi-ready'' 800 200,
         4 := sample_element ''DIV'' ''hidpi-loaded'' 1200 600),
      next_node = 5, document = [0, 1, 2, 3, 4],
      loaders = [\<lparr>ld_item = 0, ld_src = Some ''hi.jpg'', ld_done = False\<rparr>,
                 \<lparr>ld_item = 1, ld_src = Some ''hi.jpg'', ld_done = False\<rparr>],
      fading = [], console = []\<rparr>\<rparr>"

section \<open>Properties of the scheduler\<close>

lemma splice1_take: "i < length xs \<Longrightarrow> take i (splice1 i xs) = take i xs"
  by (simp add: splice1_def)

lemma splice1_drop: "i < length xs \<Longrightarrow> drop i (splice1 i xs) = drop (Suc i) xs"
  by (simp add: splice1_def)

lemma splice1_length: "i < length xs \<Longrightarrow> length (splice1 i xs) = length xs - 1"
  by (simp add: splice1_def)

lemma update_loop_eq:
  "i \<le> length wps \<Longrightarrow>
   update_loop app win i (wps, world) =
     Inr (filter (\<lambda>w. \<not> (hit win w \<and> wp_oneShot w)) (take i wps) @ drop i wps,
          fold (invoke app) (rev (filter (hit win) (take i wps))) world)"
proof (induction i arbitrary: wps world)
  case 0
  show ?case by simp
next
  case (Suc i)
  then have lt: "i < length wps" by simp
  let ?w = "wps ! i"
  have tk: "take (Suc i) wps = take i wps @ [?w]"
    using lt by (simp add: take_Suc_conv_app_nth)
  have dr: "drop i wps = ?w # drop (Suc i) wps"
    using lt by (simp add: Cons_nth_drop_Suc)
  show ?case
  proof (cases "hit win ?w")
    case False
    have "update_loop app win (Suc i) (wps, world) = update_loop app win i (wps, world)"
      using lt False by (simp add: hit_def)
    also have "\<dots> = Inr (filter (\<lambda>w. \<not> (hit win w \<and> wp_oneShot w)) (take i wps) @ drop i wps,
          fold (invoke app) (rev (filter (hit win) (take i wps))) world)"
      using lt by (intro Suc.IH) simp
    finally show ?thesis using False by (simp add: tk dr)
  next
    case True
    show ?thesis
    proof (cases "wp_oneShot ?w")
      case one: True
      have "update_loop app win (Suc i) (wps, world) =
              update_loop app win i (splice1 i wps, invoke app ?w world)"
        using lt True one by (simp add: hit_def)
      also have "\<dots> = Inr (filter (\<lambda>w. \<not> (hit win w \<and> wp_oneShot w)) (take i (splice1 i wps))
                            @ drop i (splice1 i wps),
          fold (invoke app) (rev (filter (hit win) (take i (splice1 i wps)))) (invoke app ?w world))"
        using lt by (intro Suc.IH) (simp add: splice1_length)
      finally show ?thesis
        using True one lt by (simp add: tk splice1_take splice1_drop)
    next
      case many: False
      have "update_loop app win (Suc i) (wps, world) =
              update_loop app win i (wps, invoke app ?w world)"
        using lt True many by (simp add: hit_def)
      also have "\<dots> = Inr (filter (\<lambda>w. \<not> (hit win w \<and> wp_oneShot w)) (take i wps) @ drop i wps,
          fold (invoke app) (rev (filter (hit win) (take i wps))) (invoke app ?w world))"
        using lt by (intro Suc.IH) simp
      finally show ?thesis using True many by (simp add: tk dr)
    qed
  qed
qed

lemma update_eq:
  "update app win (z, world) =
     Inr (z\<lparr>waypoints := filter (\<lambda>w. \<not> (hit win w \<and> wp_oneShot w)) (waypoints z),
            scrollHandlers := (if filter (\<lambda>w. \<not> (hit win w \<and> wp_oneShot w)) (waypoints z) = []
                               then 0 else scrollHandlers z)\<rparr>,
          fold (invoke app) (rev (filter (hit win) (waypoints z))) world)"
  by (simp add: update_def update_loop_eq)

lemma update_empty: "waypoints z = [] \<Longrightarrow> update app win (z, world) = Inr (z\<lparr>scrollHandlers := 0\<rparr>, world)"
  by (simp add: update_eq)

lemma fold_record_call:
  "fold (invoke record_call) ws calls = calls @ filter (\<lambda>w. wp_callback w \<noteq> None) ws"
  by (induction ws arbitrary: calls) (auto simp: invoke_def record_call_def split: option.splits)

lemma count_list_filter: "count_list (filter P xs) x = (if P x then count_list xs x else 0)"
  by (induction xs) auto

lemma updates_subset:
  "\<exists>z' world'. updates app wins (z, world) = Inr (z', world') \<and> set (waypoints z') \<subseteq> set (waypoints z)"
proof (induction wins arbitrary: z world)
  case Nil
  show ?case by simp
next
  case (Cons win wins)
  let ?z1 = "z\<lparr>waypoints := filter (\<lambda>w. \<not> (hit win w \<and> wp_oneShot w)) (waypoints z),
            scrollHandlers := (if filter (\<lambda>w. \<not> (hit win w \<and> wp_oneShot w)) (waypoints z) = []
                               then 0 else scrollHandlers z)\<rparr>"
  let ?w1 = "fold (invoke app) (rev (filter (hit win) (waypoints z))) world"
  obtain z' world' where r: "updates app wins (?z1, ?w1) = Inr (z', world')"
    and sub: "set (waypoints z') \<subseteq> set (waypoints ?z1)"
    using Cons.IH by blast
  have "updates app (win # wins) (z, world) = Inr (z', world')"
    using r by (simp add: update_eq)
  moreover have "set (waypoints z') \<subseteq> set (waypoints z)"
    using sub by auto
  ultimately show ?case by blast
qed

lemma updates_count:
  assumes "wp_oneShot w"
  shows "\<exists>z' calls'. updates record_call wins (z, calls) = Inr (z', calls') \<and>
      count_list calls' w + count_list (waypoints z') w \<le> count_list calls w + count_list (waypoints z) w"
proof (induction wins arbitrary: z calls)
  case Nil
  show ?case by simp
next
  case (Cons win wins)
  let ?wps1 = "filter (\<lambda>w. \<not> (hit win w \<and> wp_oneShot w)) (waypoints z)"
  let ?z1 = "z\<lparr>waypoints := ?wps1,
            scrollHandlers := (if ?wps1 = [] then 0 else scrollHandlers z)\<rparr>"
  let ?c1 = "calls @ filter (\<lambda>w. wp_callback w \<noteq> None) (rev (filter (hit win) (waypoints z)))"
  have u: "update record_call win (z, calls) = Inr (?z1, ?c1)"
    by (simp add: update_eq fold_record_call)
  obtain z' calls' where r: "updates record_call wins (?z1, ?c1) = Inr (z', calls')"
    and le: "count_list calls' w + count_list (waypoints z') w
               \<le> count_list ?c1 w + count_list (waypoints ?z1) w"
    using Cons.IH by blast
  have one: "count_list ?c1 w + count_list ?wps1 w \<le> count_list calls w + count_list (waypoints z) w"
    using assms by (simp add: count_list_filter flip: rev_filter)
  have "updates record_call (win # wins) (z, calls) = Inr (z', calls')"
    using u r by simp
  moreover have "count_list calls' w + count_list (waypoints z') w
                   \<le> count_list calls w + count_list (waypoints z) w"
    using le one by simp
  ultimately show ?case by blast
qed

lemmas number_defs = default_margin_def js_decimal_def round_ratio_def round_pos_def
  floor_log2_def round_dyadic_def overflows_def js_sub_def js_neg_def falsy_def
  bit_length.simps Let_def

lemma js_mul_commute: "js_mul x y = js_mul y x"
  by (cases x; cases y) (simp_all add: mult.commute add.commute sign_of_def)

lemma js_lt_not_le: "js_lt x y \<Longrightarrow> \<not> js_le y x"
  by (cases x; cases y) (simp_all add: min.commute)

lemma inView_rounds_as_doubles:
  "\<not> inView window_768 (js_decimal 768 10) (js_decimal 768 10) None \<and>
   inView window_643 (js_decimal 643 10) (js_decimal 643 10) None \<and>
   \<not> inView window_100 (Finite 7 0) (Finite 7 0) (Some (js_decimal 7 100)) \<and>
   js_add (js_decimal 1 10) (js_decimal 2 10) = Finite 5404319552844596 (- 54) \<and>
   js_decimal 3 10 = Finite 5404319552844595 (- 54)"
  by (simp add: inView_def window_768_def window_643_def window_100_def number_defs)

text \<open>
  Claim C2. With two arguments, \<open>inView\<close> is true exactly when the top or the bottom
  coordinate lies in the viewport shrunk by a tenth of its height on each edge, the
  bounds \<open>viewTop + margin\<close> and \<open>viewBottom - margin\<close> being computed in doubles; a region
  whose top is above and whose bottom is below the shrunk viewport is not in view.
\<close>

theorem inView_edge_test:
  "(inView w t b None \<longleftrightarrow>
      within_shrunk_view w default_margin t \<or> within_shrunk_view w default_margin b) \<and>
   (js_lt t (shrunk_top w default_margin) \<and> js_lt (shrunk_bottom w default_margin) b \<longrightarrow>
      \<not> inView w t b None)"
proof -
  have m: "js_mul default_margin (win_height w) = js_mul (win_height w) default_margin"
    by (rule js_mul_commute)
  have e: "inView w t b None \<longleftrightarrow>
      within_shrunk_view w default_margin t \<or> within_shrunk_view w default_margin b"
    by (simp add: inView_def within_shrunk_view_def shrunk_top_def shrunk_bottom_def Let_def m)
  have "\<not> within_shrunk_view w default_margin t" if "js_lt t (shrunk_top w default_margin)"
    using js_lt_not_le [OF that] by (simp add: within_shrunk_view_def)
  moreover have "\<not> within_shrunk_view w default_margin b"
    if "js_lt (shrunk_bottom w default_margin) b"
    using js_lt_not_le [OF that] by (simp add: within_shrunk_view_def)
  ultimately show ?thesis
    using e by blast
qed

theorem inView_edge_test_witness:
  "(inView window_768 (js_decimal 768 10) (Finite 700 0) None \<longleftrightarrow>
      within_shrunk_view window_768 default_margin (js_decimal 768 10) \<or>
      within_shrunk_view window_768 default_margin (Finite 700 0)) \<and>
   js_lt (js_decimal 768 10) (shrunk_top window_768 default_margin) \<and>
   js_lt (shrunk_bottom window_768 default_margin) (Finite 700 0) \<and>
   \<not> inView window_768 (js_decimal 768 10) (Finite 700 0) None"
proof -
  have h: "js_lt (js_decimal 768 10) (shrunk_top window_768 default_margin) \<and>
           js_lt (shrunk_bottom window_768 default_margin) (Finite 700 0)"
    by (simp add: shrunk_top_def shrunk_bottom_def window_768_def number_defs)
  show ?thesis
    using inView_edge_test [of window_768 "js_decimal 768 10" "Finite 700 0"] h by blast
qed

text \<open>
  Claim C10. A margin fraction of 0 gives the same result as the default fraction 0.1,
  and as leaving the argument out: the 0 is falsy and is replaced. So the test with no
  margin cannot be asked for: 5 lies in the whole viewport \<open>[0, 100]\<close>, and \<open>inView\<close>
  with fraction 0 still answers no.
\<close>

theorem inView_zero_margin_is_default:
  "inView w t b (Some (Finite 0 e)) = inView w t b (Some default_margin) \<and>
   inView w t b (Some (Finite 0 e)) = inView w t b None \<and>
   within_shrunk_view window_100 (Finite 0 0) (Finite 5 0) \<and>
   \<not> inView window_100 (Finite 5 0) (Finite 5 0) (Some (Finite 0 0))"
proof -
  have d: "\<not> falsy default_margin"
    by (simp add: number_defs)
  have "inView w t b (Some (Finite 0 e)) = inView w t b (Some default_margin)"
    "inView w t b (Some (Finite 0 e)) = inView w t b None"
    using d by (simp_all add: inView_def falsy_def)
  moreover have "within_shrunk_view window_100 (Finite 0 0) (Finite 5 0)"
    by (simp add: within_shrunk_view_def shrunk_top_def shrunk_bottom_def window_100_def
        number_defs)
  moreover have "\<not> inView window_100 (Finite 5 0) (Finite 5 0) (Some (Finite 0 0))"
    by (simp add: inView_def window_100_def number_defs)
  ultimately show ?thesis
    by blast
qed

text \<open>
  Claim C8. \<open>add\<close> appends, so the array is in registration order; one pass of
  \<open>update\<close> applies the callbacks of the waypoints in view in the reverse of that order,
  the most recently added first. With the recording caller, the calls recorded in one
  pass are the waypoints in view that have a callback, in reverse order.
\<close>

theorem update_calls_in_reverse_registration_order:
  "waypoints (add t b cb one args z) =
     waypoints z @ [\<lparr>wp_top = t, wp_bottom = b, wp_callback = cb,
                     wp_callbackArgs = args, wp_oneShot = one\<rparr>] \<and>
   (\<exists>z'. update app win (z, world) =
      Inr (z', fold (invoke app) (rev (filter (hit win) (waypoints z))) world)) \<and>
   (\<exists>z'. update record_call win (z, calls) =
      Inr (z', calls @ rev (filter (\<lambda>w. hit win w \<and> wp_callback w \<noteq> None) (waypoints z))))"
  by (simp add: add_def update_eq fold_record_call rev_filter conj_commute)

text \<open>
  Claim C4. For a waypoint added with \<open>oneShot\<close>, over any sequence of calls of
  \<open>update\<close> the callback is applied at most as often as the waypoint was added (at most
  once for a waypoint added once), and after the first call of \<open>update\<close> that finds it
  in view the waypoint is not in the array, nor after any later calls.
\<close>

theorem oneShot_fires_at_most_once:
  assumes "wp_oneShot w"
  shows "(\<exists>z' calls. updates record_call wins (z, []) = Inr (z', calls) \<and>
            count_list calls w \<le> count_list (waypoints z) w) \<and>
         (hit win w \<longrightarrow>
            (\<exists>z1 world1. update app win (z, world) = Inr (z1, world1) \<and>
               w \<notin> set (waypoints z1) \<and>
               (\<forall>wins'. \<exists>z2 world2. updates app wins' (z1, world1) = Inr (z2, world2) \<and>
                   w \<notin> set (waypoints z2))))"
proof (intro conjI impI)
  obtain z' calls' where "updates record_call wins (z, []) = Inr (z', calls')"
    and "count_list calls' w + count_list (waypoints z') w
           \<le> count_list [] w + count_list (waypoints z) w"
    using updates_count [OF assms, of wins z "[]"] by blast
  then show "\<exists>z' calls. updates record_call wins (z, []) = Inr (z', calls) \<and>
            count_list calls w \<le> count_list (waypoints z) w"
    by auto
next
  assume h: "hit win w"
  let ?wps1 = "filter (\<lambda>w. \<not> (hit win w \<and> wp_oneShot w)) (waypoints z)"
  let ?z1 = "z\<lparr>waypoints := ?wps1,
            scrollHandlers := (if ?wps1 = [] then 0 else scrollHandlers z)\<rparr>"
  let ?w1 = "fold (invoke app) (rev (filter (hit win) (waypoints z))) world"
  have u: "update app win (z, world) = Inr (?z1, ?w1)"
    by (simp add: update_eq)
  have gone: "w \<notin> set (waypoints ?z1)"
    using h assms by simp
  have later: "\<exists>z2 world2. updates app wins' (?z1, ?w1) = Inr (z2, world2) \<and>
                   w \<notin> set (waypoints z2)" for wins'
    using updates_subset [of app wins' ?z1 ?w1] gone by blast
  show "\<exists>z1 world1. update app win (z, world) = Inr (z1, world1) \<and>
               w \<notin> set (waypoints z1) \<and>
               (\<forall>wins'. \<exists>z2 world2. updates app wins' (z1, world1) = Inr (z2, world2) \<and>
                   w \<notin> set (waypoints z2))"
    using u gone later by blast
qed

lemma updates_idle:
  assumes "waypoints z = []" and "scrollHandlers z = 0"
  shows "updates app wins (z, world) = Inr (z, world)"
proof -
  have e: "z\<lparr>waypoints := [], scrollHandlers := 0\<rparr> = z"
    using assms by (cases z) simp
  have u: "update app win (z, world) = Inr (z, world)" for win
    by (simp add: update_eq assms e)
  show ?thesis
    by (induction wins) (simp_all add: u)
qed

lemma scroll_events_idle:
  "scrollHandlers z = 0 \<Longrightarrow> scroll_events app wins (z, world) = Inr (z, world)"
  by (induction wins) (simp_all add: scroll_event_def)

text \<open>
  Claim C7. When a call of \<open>update\<close> leaves the array empty, no binding of \<open>update\<close>
  to the scroll event is left, and further scroll events change nothing: no callback is
  applied (nor would a direct call of \<open>update\<close> apply one). The next \<open>add\<close> binds the
  handler again.
\<close>

theorem empty_list_unsubscribes:
  assumes "update app win (z, world) = Inr (z', world')" and "waypoints z' = []"
  shows "scrollHandlers z' = 0 \<and>
         scroll_events app wins (z', world') = Inr (z', world') \<and>
         updates app wins (z', world') = Inr (z', world') \<and>
         scrollHandlers (add t b cb one args z') = 1"
proof -
  have "scrollHandlers z' = 0"
    using assms by (auto simp: update_eq)
  then show ?thesis
    using assms(2) by (simp add: scroll_events_idle updates_idle add_def)
qed


theorem oneShot_fires_at_most_once_witness:
  "wp_oneShot sample_waypoint \<and> hit sample_window sample_waypoint \<and>
   (\<exists>z' calls. updates record_call [sample_window, sample_window] (sample_zg, []) = Inr (z', calls) \<and>
       count_list calls sample_waypoint \<le> count_list (waypoints sample_zg) sample_waypoint) \<and>
   (\<exists>z1 world1. update record_call sample_window (sample_zg, []) = Inr (z1, world1) \<and>
       sample_waypoint \<notin> set (waypoints z1) \<and>
       (\<forall>wins'. \<exists>z2 world2. updates record_call wins' (z1, world1) = Inr (z2, world2) \<and>
           sample_waypoint \<notin> set (waypoints z2)))"
proof -
  have one: "wp_oneShot sample_waypoint"
    by (simp add: sample_waypoint_def)
  have h: "hit sample_window sample_waypoint"
    by (simp add: hit_def inView_def sample_window_def sample_waypoint_def number_defs)
  show ?thesis
    using one h oneShot_fires_at_most_once [OF one, of "[sample_window, sample_window]"
        sample_zg sample_window record_call "[]"]
    by simp
qed

theorem empty_list_unsubscribes_witness:
  "update record_call sample_window (sample_zg, []) =
     Inr (\<lparr>waypoints = [], scrollHandlers = 0\<rparr>, [sample_waypoint]) \<and>
   waypoints \<lparr>waypoints = ([] :: (nat, nat) waypoint list), scrollHandlers = 0\<rparr> = [] \<and>
   scrollHandlers \<lparr>waypoints = ([] :: (nat, nat) waypoint list), scrollHandlers = 0\<rparr> = 0 \<and>
   scroll_events record_call [sample_window, sample_window]
       (\<lparr>waypoints = [], scrollHandlers = 0\<rparr>, [sample_waypoint]) =
     Inr (\<lparr>waypoints = [], scrollHandlers = 0\<rparr>, [sample_waypoint]) \<and>
   updates record_call [sample_window, sample_window]
       (\<lparr>waypoints = [], scrollHandlers = 0\<rparr>, [sample_waypoint]) =
     Inr (\<lparr>waypoints = [], scrollHandlers = 0\<rparr>, [sample_waypoint]) \<and>
   scrollHandlers (add (Finite 0 0) (Finite 10 0) (Some 1) True [8]
       \<lparr>waypoints = ([] :: (nat, nat) waypoint list), scrollHandlers = 0\<rparr>) = 1"
proof -
  have u: "update record_call sample_window (sample_zg, []) =
     Inr (\<lparr>waypoints = [], scrollHandlers = 0\<rparr>, [sample_waypoint])"
    by (simp add: update_def sample_zg_def sample_window_def sample_waypoint_def inView_def
        splice1_def invoke_def record_call_def number_defs)
  have e: "waypoints \<lparr>waypoints = ([] :: (nat, nat) waypoint list), scrollHandlers = 0\<rparr> = []"
    by simp
  show ?thesis
    using u empty_list_unsubscribes [OF u e, of "[sample_window, sample_window]"
        "Finite 0 0" "Finite 10 0" "Some 1" True "[8]"]
    by simp
qed

section \<open>Properties of the controller\<close>

subsection \<open>Nodes and classes\<close>

lemma nodes_on_node: "nodes (on_node j f p) i = (if i = j then f (nodes p j) else nodes p i)"
  by (simp add: on_node_def)

lemma on_node_rest:
  "next_node (on_node j f p) = next_node p" "document (on_node j f p) = document p"
  "loaders (on_node j f p) = loaders p" "fading (on_node j f p) = fading p"
  by (simp_all add: on_node_def)

lemma hasClass_addClass: "hasClass c (addClass c' e) = (c = c' \<or> hasClass c e)"
  by (auto simp: hasClass_def addClass_def)

lemma hasClass_removeClass: "hasClass c (removeClass c' e) = (c \<noteq> c' \<and> hasClass c e)"
  by (auto simp: hasClass_def removeClass_def)

lemma removeClass_twice: "removeClass c (removeClass c e) = removeClass c e"
  by (simp add: removeClass_def)

lemma keeps_refl: "keeps e e"
  by (simp add: keeps_def)

lemma keeps_trans: "keeps a b \<Longrightarrow> keeps b c \<Longrightarrow> keeps a c"
  by (simp add: keeps_def)

lemma keeps_addClass: "c \<noteq> ''hidpi-ready'' \<Longrightarrow> keeps e (addClass c e)"
  by (auto simp: keeps_def hasClass_def addClass_def)

lemma keeps_removeClass:
  "c \<noteq> ''hidpi-ready'' \<Longrightarrow> c \<noteq> ''hidpi-error'' \<Longrightarrow> keeps e (removeClass c e)"
  by (auto simp: keeps_def hasClass_def removeClass_def)

lemma keeps_style:
  "keeps e (css_set prop v e)" "keeps e (attr_set n x e)" "keeps e (removeAttr n e)"
  "keeps e (e\<lparr>el_parent := q\<rparr>)"
  by (simp_all add: keeps_def hasClass_def css_set_def attr_set_def removeAttr_def)

lemma keeps_on_node:
  "keeps e (f e) \<Longrightarrow> keeps (nodes p i) (nodes q i) \<Longrightarrow> nodes q j = e \<Longrightarrow>
   keeps (nodes p i) (nodes (on_node j f q) i)"
  by (auto simp: nodes_on_node intro: keeps_trans)

subsection \<open>preloadHiDPIImage\<close>

lemma preload_rest:
  "next_node (preloadHiDPIImage j p) = next_node p"
  "document (preloadHiDPIImage j p) = document p"
  "map ld_item (loaders (preloadHiDPIImage j p)) = map ld_item (loaders p) @ [j]"
  by (simp_all add: preloadHiDPIImage_def Let_def on_node_rest)

lemma preload_other: "i \<noteq> j \<Longrightarrow> nodes (preloadHiDPIImage j p) i = nodes p i"
  by (simp add: preloadHiDPIImage_def Let_def nodes_on_node)

lemma preload_keeps: "keeps (nodes p i) (nodes (preloadHiDPIImage j p) i)"
proof (cases "i = j")
  case False
  then show ?thesis by (simp add: preload_other keeps_refl)
next
  case True
  have "keeps (nodes p j)
     (addClass ''hidpi-loading'' (removeClass ''hidpi-pending'' (removeClass ''hidpi-queued'' (nodes p j))))"
    by (intro keeps_trans [OF keeps_removeClass keeps_trans [OF keeps_removeClass keeps_addClass]])
       simp_all
  then show ?thesis
    using True by (simp add: preloadHiDPIImage_def Let_def nodes_on_node)
qed

lemma preload_classes:
  "hasClass ''hidpi-loading'' (nodes (preloadHiDPIImage j p) j)"
  "\<not> hasClass ''hidpi-pending'' (nodes (preloadHiDPIImage j p) j)"
  by (simp_all add: preloadHiDPIImage_def Let_def nodes_on_node hasClass_addClass
      hasClass_removeClass)

subsection \<open>each_item\<close>

lemma each_item_eq:
  "each_item j b =
     (if item_in_view (the_window b) (page b) j
      then b\<lparr>page := preloadHiDPIImage j (page b)\<rparr>
      else b\<lparr>page := on_node j (addClass ''hidpi-pending'') (page b),
             zg := (zg b)\<lparr>waypoints := waypoints (zg b) @ [region_for (page b) j],
                           scrollHandlers := Suc (scrollHandlers (zg b))\<rparr>\<rparr>)"
  by (simp add: each_item_def item_in_view_def region_for_def PRELOAD_SCHEME_def add_def Let_def)

lemma each_item_rest:
  "the_window (each_item j b) = the_window b"
  "next_node (page (each_item j b)) = next_node (page b)"
  "document (page (each_item j b)) = document (page b)"
  by (simp_all add: each_item_eq preload_rest on_node_rest)

lemma each_item_other: "i \<noteq> j \<Longrightarrow> nodes (page (each_item j b)) i = nodes (page b) i"
  by (simp add: each_item_eq preload_other nodes_on_node)

lemma each_item_keeps: "keeps (nodes (page b) i) (nodes (page (each_item j b)) i)"
  by (auto simp: each_item_eq preload_keeps nodes_on_node keeps_refl keeps_addClass)

lemma each_item_view: "item_in_view win (page (each_item j b)) i = item_in_view win (page b) i"
  using each_item_keeps [of b i j] by (simp add: item_in_view_def keeps_def)

lemma each_item_region: "region_for (page (each_item j b)) i = region_for (page b) i"
  using each_item_keeps [of b i j] by (simp add: region_for_def keeps_def)

lemma each_item_loaders:
  "map ld_item (loaders (page (each_item j b))) =
     map ld_item (loaders (page b)) @ (if item_in_view (the_window b) (page b) j then [j] else [])"
  by (simp add: each_item_eq preload_rest on_node_rest)

lemma each_item_waypoints:
  "waypoints (zg (each_item j b)) =
     waypoints (zg b) @ (if item_in_view (the_window b) (page b) j then [] else [region_for (page b) j])"
  by (simp add: each_item_eq)

lemma fold_each_item_rest:
  "the_window (fold each_item sel b) = the_window b \<and>
   next_node (page (fold each_item sel b)) = next_node (page b) \<and>
   document (page (fold each_item sel b)) = document (page b)"
  by (induction sel arbitrary: b) (simp_all add: each_item_rest)

lemma fold_each_item_other:
  "i \<notin> set sel \<Longrightarrow> nodes (page (fold each_item sel b)) i = nodes (page b) i"
  by (induction sel arbitrary: b) (simp_all add: each_item_other)

lemma fold_each_item_keeps: "keeps (nodes (page b) i) (nodes (page (fold each_item sel b)) i)"
proof (induction sel arbitrary: b)
  case Nil
  show ?case by (simp add: keeps_refl)
next
  case (Cons j sel)
  show ?case
    using keeps_trans [OF each_item_keeps [of b i j] Cons.IH [of "each_item j b"]] by simp
qed

lemma fold_each_item_view:
  "item_in_view win (page (fold each_item sel b)) i = item_in_view win (page b) i"
  using fold_each_item_keeps [of b i sel] by (simp add: item_in_view_def keeps_def)

lemma fold_each_item_loaders:
  "map ld_item (loaders (page (fold each_item sel b))) =
     map ld_item (loaders (page b)) @ filter (item_in_view (the_window b) (page b)) sel"
proof (induction sel arbitrary: b)
  case Nil
  show ?case by simp
next
  case (Cons j sel)
  have v: "item_in_view (the_window (each_item j b)) (page (each_item j b)) =
           item_in_view (the_window b) (page b)"
    by (rule ext) (simp add: each_item_view each_item_rest)
  show ?case
    by (simp add: Cons.IH v each_item_loaders)
qed

lemma fold_each_item_waypoints:
  "waypoints (zg (fold each_item sel b)) =
     waypoints (zg b) @
       map (region_for (page b)) (filter (\<lambda>j. \<not> item_in_view (the_window b) (page b) j) sel)"
proof (induction sel arbitrary: b)
  case Nil
  show ?case by simp
next
  case (Cons j sel)
  have v: "item_in_view (the_window (each_item j b)) (page (each_item j b)) =
           item_in_view (the_window b) (page b)"
    by (rule ext) (simp add: each_item_view each_item_rest)
  have r: "region_for (page (each_item j b)) = region_for (page b)"
    by (rule ext) (simp add: each_item_region)
  show ?case
    by (simp add: Cons.IH v r each_item_waypoints)
qed


subsection \<open>checkForHiDPIElements\<close>

lemma fold_removeClass_nodes:
  "nodes (fold (\<lambda>i. on_node i (removeClass c)) sel p) i =
     (if i \<in> set sel then removeClass c (nodes p i) else nodes p i)"
  by (induction sel arbitrary: p) (auto simp: nodes_on_node removeClass_twice)

lemma fold_removeClass_rest:
  "next_node (fold (\<lambda>i. on_node i f) sel p) = next_node p \<and>
   document (fold (\<lambda>i. on_node i f) sel p) = document p \<and>
   loaders (fold (\<lambda>i. on_node i f) sel p) = loaders p"
  by (induction sel arbitrary: p) (simp_all add: on_node_rest)

lemma scan_eq:
  "checkForHiDPIElements b =
     fold each_item (selected (page b))
       (b\<lparr>page := fold (\<lambda>i. on_node i (removeClass ''hidpi-ready'')) (selected (page b)) (page b)\<rparr>)"
  by (simp add: checkForHiDPIElements_def selected_def Let_def)

lemma unready_view:
  "item_in_view win (fold (\<lambda>i. on_node i (removeClass c)) sel p) = item_in_view win p"
  by (rule ext) (simp add: item_in_view_def fold_removeClass_nodes removeClass_def)

lemma unready_region:
  "region_for (fold (\<lambda>i. on_node i (removeClass c)) sel p) = region_for p"
  by (rule ext) (simp add: region_for_def fold_removeClass_nodes removeClass_def)

lemma scan_rest:
  "the_window (checkForHiDPIElements b) = the_window b"
  "next_node (page (checkForHiDPIElements b)) = next_node (page b)"
  "document (page (checkForHiDPIElements b)) = document (page b)"
  by (simp_all add: scan_eq fold_each_item_rest fold_removeClass_rest)

lemma scan_loaders:
  "map ld_item (loaders (page (checkForHiDPIElements b))) =
     map ld_item (loaders (page b)) @
       filter (item_in_view (the_window b) (page b)) (selected (page b))"
  by (simp add: scan_eq fold_each_item_loaders fold_removeClass_rest unready_view)

lemma scan_waypoints:
  "waypoints (zg (checkForHiDPIElements b)) =
     waypoints (zg b) @
       map (region_for (page b))
         (filter (\<lambda>j. \<not> item_in_view (the_window b) (page b) j) (selected (page b)))"
  by (simp add: scan_eq fold_each_item_waypoints unready_view unready_region)

lemma scan_other:
  "i \<notin> set (selected (page b)) \<Longrightarrow> nodes (page (checkForHiDPIElements b)) i = nodes (page b) i"
  by (simp add: scan_eq fold_each_item_other fold_removeClass_nodes)

lemma scan_node:
  "el_width (nodes (page (checkForHiDPIElements b)) i) = el_width (nodes (page b) i) \<and>
   el_height (nodes (page (checkForHiDPIElements b)) i) = el_height (nodes (page b) i) \<and>
   el_offsetTop (nodes (page (checkForHiDPIElements b)) i) = el_offsetTop (nodes (page b) i) \<and>
   hasClass ''hidpi-ready'' (nodes (page (checkForHiDPIElements b)) i) =
     (i \<notin> set (selected (page b)) \<and> hasClass ''hidpi-ready'' (nodes (page b) i)) \<and>
   (hasClass ''hidpi-error'' (nodes (page b) i) \<longrightarrow>
      hasClass ''hidpi-error'' (nodes (page (checkForHiDPIElements b)) i))"
proof -
  let ?b1 = "b\<lparr>page := fold (\<lambda>i. on_node i (removeClass ''hidpi-ready'')) (selected (page b)) (page b)\<rparr>"
  have k: "keeps (nodes (page ?b1) i) (nodes (page (checkForHiDPIElements b)) i)"
    unfolding scan_eq by (rule fold_each_item_keeps)
  show ?thesis
    using k by (auto simp: keeps_def fold_removeClass_nodes hasClass_removeClass removeClass_def
        hasClass_def)
qed

lemma scan_region: "region_for (page (checkForHiDPIElements b)) = region_for (page b)"
  by (rule ext) (simp add: region_for_def scan_node)

lemma selected_after_scan: "selected (page (checkForHiDPIElements b)) = []"
proof -
  have "\<not> (hasClass ''hidpi-ready'' (nodes (page (checkForHiDPIElements b)) i) \<and>
            js_lt HIDPI_BREAKPOINT (el_width (nodes (page (checkForHiDPIElements b)) i)))"
    if "i \<in> set (document (page b))" for i
    using that by (auto simp: scan_node selected_def)
  then show ?thesis
    by (auto simp: selected_def scan_rest filter_empty_conv)
qed

lemma scan_idem: "checkForHiDPIElements (checkForHiDPIElements b) = checkForHiDPIElements b"
  by (subst scan_eq) (simp add: selected_after_scan)

lemma scans_collapse: "(checkForHiDPIElements ^^ Suc n) b = checkForHiDPIElements b"
  by (induction n) (simp_all add: scan_idem)

lemma load_count_map: "load_count i p = length (filter (\<lambda>j. j = i) (map ld_item (loaders p)))"
  by (simp add: load_count_def filter_map comp_def)

lemma regions_of_append:
  "regions_of i (z\<lparr>waypoints := ws\<rparr>) = filter (\<lambda>w. i \<in> set (wp_callbackArgs w)) ws"
  by (simp add: regions_of_def)

lemma regions_new:
  "filter (\<lambda>w. i \<in> set (wp_callbackArgs w)) (map (region_for p) js) =
     map (region_for p) (filter (\<lambda>j. j = i) js)"
  by (induction js) (auto simp: region_for_def)

lemma scan_untouched:
  assumes "i \<notin> set (selected (page b))"
  shows "nodes (page (checkForHiDPIElements b)) i = nodes (page b) i \<and>
         load_count i (page (checkForHiDPIElements b)) = load_count i (page b) \<and>
         regions_of i (zg (checkForHiDPIElements b)) = regions_of i (zg b)"
proof -
  show ?thesis
    using assms
    by (auto simp: scan_other load_count_map scan_loaders regions_of_def scan_waypoints
        regions_new filter_empty_conv)
qed

lemma scan_counts:
  "load_count i (page (checkForHiDPIElements b)) + length (regions_of i (zg (checkForHiDPIElements b)))
     = load_count i (page b) + length (regions_of i (zg b)) +
       length (filter (\<lambda>j. j = i) (selected (page b)))"
proof -
  have split: "length (filter (\<lambda>j. j = i) (filter P xs)) +
               length (filter (\<lambda>j. j = i) (filter (\<lambda>j. \<not> P j) xs)) =
               length (filter (\<lambda>j. j = i) xs)" for P and xs :: "nat list"
    by (induction xs) auto
  show ?thesis
    using split [of "item_in_view (the_window b) (page b)" "selected (page b)"]
    by (simp add: load_count_map scan_loaders regions_of_def scan_waypoints regions_new)
qed

lemma distinct_once: "distinct xs \<Longrightarrow> x \<in> set xs \<Longrightarrow> length (filter (\<lambda>y. y = x) xs) = 1"
  by (induction xs) (auto simp: filter_empty_conv)


subsection \<open>Handlers that change the page only\<close>

lemma advances_refl: "advances p p"
  by (simp add: advances_def keeps_refl)

lemma advances_trans:
  assumes "advances p q" and "advances q r"
  shows "advances p r"
proof -
  have n: "next_node p \<le> next_node q" "next_node q \<le> next_node r"
    using assms by (simp_all add: advances_def)
  have k: "keeps (nodes p i) (nodes r i)" if "i < next_node p" for i
  proof -
    have "keeps (nodes p i) (nodes q i)"
      using assms(1) that by (simp add: advances_def)
    moreover have "keeps (nodes q i) (nodes r i)"
      using assms(2) that n by (simp add: advances_def)
    ultimately show ?thesis by (rule keeps_trans)
  qed
  have d: "i \<in> set (document p) \<or> (next_node p \<le> i \<and> i < next_node r)"
    if "i \<in> set (document r)" for i
  proof -
    have "i \<in> set (document q) \<or> (next_node q \<le> i \<and> i < next_node r)"
      using assms(2) that by (simp add: advances_def)
    moreover have "i \<in> set (document p) \<or> (next_node p \<le> i \<and> i < next_node q)"
      if "i \<in> set (document q)"
      using assms(1) that by (simp add: advances_def)
    ultimately show ?thesis using n by auto
  qed
  show ?thesis
    using n k d by (simp add: advances_def)
qed

lemma advances_on_node: "(\<And>e. keeps e (f e)) \<Longrightarrow> advances p (on_node j f p)"
  by (simp add: advances_def nodes_on_node on_node_rest keeps_refl)

lemma advances_fields:
  "advances p (p\<lparr>fading := fs\<rparr>)" "advances p (p\<lparr>console := cs\<rparr>)"
  "advances p (p\<lparr>loaders := ls\<rparr>)"
  by (simp_all add: advances_def keeps_refl)

lemma mark_done_items: "map ld_item (loaders (mark_done k p)) = map ld_item (loaders p)"
  by (cases "k < length (loaders p)")
     (auto simp: mark_done_def list_eq_iff_nth_eq nth_list_update list_update_beyond)

lemma mark_done_advances: "advances p (mark_done k p)"
  by (simp add: mark_done_def advances_fields)

lemma hiDPIError_advances: "advances p (hiDPIError j src p)"
  unfolding hiDPIError_def
  by (intro advances_trans [OF advances_fields(2) advances_trans [OF advances_on_node advances_on_node]]
      keeps_removeClass keeps_addClass) simp_all

lemma hiDPIError_rest:
  "loaders (hiDPIError j src p) = loaders p"
  "hasClass ''hidpi-error'' (nodes (hiDPIError j src p) j)"
  "hasClass ''hidpi-loading'' (nodes (hiDPIError j src p) j) = hasClass ''hidpi-loading'' (nodes p j)"
  by (simp_all add: hiDPIError_def on_node_def hasClass_addClass hasClass_removeClass)

lemma loaded_img_raises: "loaded_img (Function name) item src p = Inl TypeError"
  by (simp add: loaded_img_def call_css_get_def)

lemma hiDPILoaded_img: "tagName (nodes p item) = ''IMG'' \<Longrightarrow> hiDPILoaded item src p = Inl TypeError"
  by (simp add: hiDPILoaded_def loaded_img_raises)

lemma set_insert_after: "set (insert_after x y zs) \<subseteq> insert y (set zs)"
  by (induction zs) auto

lemma loaded_tail_advances: "advances p (loaded_tail item overlay p)"
  unfolding loaded_tail_def
  by (intro advances_trans [OF advances_fields(1)
        advances_trans [OF advances_on_node advances_trans [OF advances_on_node advances_on_node]]]
      keeps_addClass keeps_style) simp_all

lemma loaded_tail_loaders: "loaders (loaded_tail item overlay p) = loaders p"
  by (simp add: loaded_tail_def on_node_def)

lemma loaded_container_advances:
  "advances p (snd (loaded_container item src p)) \<and>
   loaders (snd (loaded_container item src p)) = loaders p"
proof -
  have s: "\<And>x. x \<in> set (insert_after item (next_node p) (document p)) \<Longrightarrow>
      x \<in> set (document p) \<or> x = next_node p"
    using set_insert_after [of item "next_node p" "document p"] by auto
  show ?thesis
    using s
    by (auto simp: loaded_container_def new_node_def Let_def advances_def on_node_def keeps_def
        hasClass_def removeClass_def css_set_def)
qed

lemma hiDPILoaded_advances:
  assumes "hiDPILoaded item src p = Inr p'"
  shows "advances p p' \<and> loaders p' = loaders p"
proof -
  have img: "tagName (nodes p item) \<noteq> ''IMG''"
    using assms by (auto simp: hiDPILoaded_img)
  obtain overlay p1 where c: "loaded_container item src p = (overlay, p1)"
    by (cases "loaded_container item src p")
  have p': "p' = loaded_tail item overlay p1"
    using assms img c by (simp add: hiDPILoaded_def)
  have "advances p p1" "loaders p1 = loaders p"
    using loaded_container_advances [of p item src] c by simp_all
  then show ?thesis
    using loaded_tail_advances [of p1 item overlay] p'
    by (auto intro: advances_trans simp: loaded_tail_loaders)
qed

lemma remove_node_advances: "advances p (remove_node i p)"
  by (auto simp: remove_node_def advances_def on_node_def keeps_def hasClass_def)

lemma animation_complete_advances:
  "advances p (hiDPIAnimationComplete i p) \<and> loaders (hiDPIAnimationComplete i p) = loaders p"
proof -
  have a: "advances p (on_node q (removeClass ''hidpi-animating'') p)" for q
    by (intro advances_on_node keeps_removeClass) simp_all
  have "advances p (hiDPIAnimationComplete i p)"
    unfolding hiDPIAnimationComplete_def Let_def
    by (auto split: option.splits intro: remove_node_advances advances_trans [OF a remove_node_advances])
  moreover have "loaders (hiDPIAnimationComplete i p) = loaders p"
    by (simp add: hiDPIAnimationComplete_def Let_def remove_node_def on_node_def split: option.splits)
  ultimately show ?thesis by simp
qed

lemma page_event:
  assumes "ev = LoadSuccess k \<or> ev = LoadError k \<or> ev = FadeComplete k"
  shows "\<exists>p'. step ev b = b\<lparr>page := p'\<rparr> \<and> advances (page b) p' \<and>
           map ld_item (loaders p') = map ld_item (loaders (page b))"
proof -
  have same: "\<exists>p'. b = b\<lparr>page := p'\<rparr> \<and> advances (page b) p' \<and>
           map ld_item (loaders p') = map ld_item (loaders (page b))"
    by (rule exI [of _ "page b"]) (simp add: advances_refl)
  have md: "advances (page b) (mark_done k (page b))"
    by (rule mark_done_advances)
  consider (ok) "ev = LoadSuccess k" | (err) "ev = LoadError k" | (fade) "ev = FadeComplete k"
    using assms by blast
  then show ?thesis
  proof cases
    case ok
    show ?thesis
    proof (cases "loader_fires k (page b)")
      case None
      then show ?thesis using ok same by simp
    next
      case (Some a)
      obtain item src where a: "a = (item, src)" by (cases a)
      show ?thesis
      proof (cases "hiDPILoaded item src (mark_done k (page b))")
        case (Inl e)
        then show ?thesis
          using ok Some a md by (auto simp: mark_done_items)
      next
        case (Inr p')
        have "advances (page b) p'" "loaders p' = loaders (mark_done k (page b))"
          using hiDPILoaded_advances [OF Inr] md by (auto intro: advances_trans)
        then show ?thesis
          using ok Some a Inr by (auto simp: mark_done_items)
      qed
    qed
  next
    case err
    show ?thesis
    proof (cases "loader_fires k (page b)")
      case None
      then show ?thesis using err same by simp
    next
      case (Some a)
      obtain item src where a: "a = (item, src)" by (cases a)
      have "advances (page b) (hiDPIError item src (mark_done k (page b)))"
        using md hiDPIError_advances by (rule advances_trans)
      then show ?thesis
        using err Some a by (auto simp: hiDPIError_rest mark_done_items)
    qed
  next
    case fade
    show ?thesis
    proof (cases "k \<in> set (fading (page b))")
      case False
      then show ?thesis using fade same by simp
    next
      case True
      let ?p = "(page b)\<lparr>fading := remove1 k (fading (page b))\<rparr>"
      have "advances (page b) (hiDPIAnimationComplete k ?p)"
        using advances_fields(1) animation_complete_advances [of ?p k]
        by (blast intro: advances_trans)
      moreover have "loaders (hiDPIAnimationComplete k ?p) = loaders (page b)"
        using animation_complete_advances [of ?p k] by simp
      ultimately show ?thesis
        using fade True by auto
    qed
  qed
qed

lemma parse_event:
  "\<exists>p'. step (Parse e) b = b\<lparr>page := p'\<rparr> \<and> advances (page b) p' \<and>
         map ld_item (loaders p') = map ld_item (loaders (page b))"
  by (auto simp: new_node_def advances_def keeps_refl)

subsection \<open>Scroll events in the browser\<close>

lemma preload_item_set:
  "ld_item ` set (loaders (preloadHiDPIImage j p)) = insert j (ld_item ` set (loaders p))"
  by (simp add: preloadHiDPIImage_def Let_def on_node_rest)

lemma preload_count:
  "load_count i (preloadHiDPIImage j p) = load_count i p + (if j = i then 1 else 0)"
  by (simp add: load_count_def preloadHiDPIImage_def Let_def on_node_rest)

lemma invoke_cases:
  "invoke apply_callback w p = p \<or>
   (\<exists>j \<in> set (wp_callbackArgs w). invoke apply_callback w p = preloadHiDPIImage j p)"
proof (cases "wp_callback w")
  case None
  then show ?thesis by (simp add: invoke_def)
next
  case (Some f)
  show ?thesis
  proof (cases "wp_callbackArgs w")
    case Nil
    then show ?thesis using Some by (cases f) (simp add: invoke_def)
  next
    case (Cons j rest)
    then show ?thesis using Some by (cases f) (simp add: invoke_def)
  qed
qed

lemma invoke_page:
  "next_node (invoke apply_callback w p) = next_node p \<and>
   document (invoke apply_callback w p) = document p \<and>
   keeps (nodes p i) (nodes (invoke apply_callback w p) i)"
  using invoke_cases [of w p] by (auto simp: preload_rest preload_keeps keeps_refl)

lemma fold_invoke_page:
  "next_node (fold (invoke apply_callback) ws p) = next_node p \<and>
   document (fold (invoke apply_callback) ws p) = document p \<and>
   keeps (nodes p i) (nodes (fold (invoke apply_callback) ws p) i)"
proof (induction ws arbitrary: p)
  case Nil
  show ?case by (simp add: keeps_refl)
next
  case (Cons w ws)
  show ?case
    using invoke_page [of w p i] Cons.IH [of "invoke apply_callback w p"]
    by (auto intro: keeps_trans)
qed

lemma subset_chain: "A1 \<subseteq> A0 \<union> B \<Longrightarrow> A2 \<subseteq> A1 \<union> C \<Longrightarrow> A2 \<subseteq> A0 \<union> (B \<union> C)"
  by blast

lemma invoke_items:
  "ld_item ` set (loaders (invoke apply_callback w p)) \<subseteq>
     ld_item ` set (loaders p) \<union> set (wp_callbackArgs w)"
proof (cases "invoke apply_callback w p = p")
  case True
  then show ?thesis by simp
next
  case False
  then obtain j where j: "j \<in> set (wp_callbackArgs w)"
    and e: "invoke apply_callback w p = preloadHiDPIImage j p"
    using invoke_cases [of w p] by blast
  show ?thesis
    using j by (simp only: e preload_item_set) blast
qed

lemma fold_invoke_items:
  "ld_item ` set (loaders (fold (invoke apply_callback) ws p)) \<subseteq>
     ld_item ` set (loaders p) \<union> (\<Union>w \<in> set ws. set (wp_callbackArgs w))"
proof (induction ws arbitrary: p)
  case Nil
  show ?case by simp
next
  case (Cons w ws)
  have "ld_item ` set (loaders (fold (invoke apply_callback) ws (invoke apply_callback w p))) \<subseteq>
     ld_item ` set (loaders p) \<union>
       (set (wp_callbackArgs w) \<union> (\<Union>w \<in> set ws. set (wp_callbackArgs w)))"
    by (rule subset_chain [OF invoke_items Cons.IH])
  then show ?case
    by simp
qed

lemma fold_invoke_count:
  "(\<forall>w \<in> set ws. j \<notin> set (wp_callbackArgs w)) \<Longrightarrow>
   load_count j (fold (invoke apply_callback) ws p) = load_count j p"
proof (induction ws arbitrary: p)
  case Nil
  show ?case by simp
next
  case (Cons w ws)
  have "load_count j (invoke apply_callback w p) = load_count j p"
    using invoke_cases [of w p] Cons.prems by (auto simp: preload_count)
  then show ?case
    using Cons by simp
qed

lemma region_for_keeps:
  "keeps (nodes p j) (nodes p' j) \<Longrightarrow> region_for p' j = region_for p j"
  by (simp add: region_for_def keeps_def)

lemma consistent_update:
  assumes c: "consistent b"
    and u: "update apply_callback win (zg b, page b) = Inr (z', p')"
  shows "consistent (b\<lparr>zg := z', page := p'\<rparr>)"
proof -
  let ?wps = "waypoints (zg b)"
  let ?fired = "rev (filter (hit win) ?wps)"
  have z': "waypoints z' = filter (\<lambda>w. \<not> (hit win w \<and> wp_oneShot w)) ?wps"
    and p': "p' = fold (invoke apply_callback) ?fired (page b)"
    using u by (auto simp: update_eq)
  have nx: "next_node p' = next_node (page b)" and doc: "document p' = document (page b)"
    and k: "\<And>i. keeps (nodes (page b) i) (nodes p' i)"
    using fold_invoke_page [of ?fired "page b"] by (simp_all add: p')
  have ready: "hasClass ''hidpi-ready'' (nodes p' i) = hasClass ''hidpi-ready'' (nodes (page b) i)" for i
    using k [of i] by (simp add: keeps_def)
  have wp: "\<exists>j. j < next_node (page b) \<and> w = region_for (page b) j \<and>
              \<not> hasClass ''hidpi-ready'' (nodes (page b) j)" if "w \<in> set ?wps" for w
    using c that by (simp add: consistent_def)
  have c1: "\<forall>i \<in> set (document p'). i < next_node p'"
    using c by (simp add: consistent_def nx doc)
  have c3: "\<exists>j. j < next_node p' \<and> w = region_for p' j \<and> \<not> hasClass ''hidpi-ready'' (nodes p' j)"
    if mem: "w \<in> set (waypoints z')" for w
  proof -
    obtain j where "j < next_node (page b)" "w = region_for (page b) j"
      "\<not> hasClass ''hidpi-ready'' (nodes (page b) j)"
      using wp [of w] mem by (auto simp: z')
    then show ?thesis
      using region_for_keeps [OF k [of j]] by (auto simp: nx ready)
  qed
  have c2: "ld_item l < next_node p' \<and> \<not> hasClass ''hidpi-ready'' (nodes p' (ld_item l)) \<and>
            regions_of (ld_item l) z' = []" if "l \<in> set (loaders p')" for l
  proof -
    have "ld_item l \<in> ld_item ` set (loaders p')"
      using that by simp
    then consider (old) "ld_item l \<in> ld_item ` set (loaders (page b))"
      | (new) w where "w \<in> set ?fired" "ld_item l \<in> set (wp_callbackArgs w)"
      using fold_invoke_items [of ?fired "page b"] by (auto simp: p')
    then show ?thesis
    proof cases
      case old
      then obtain l0 where "l0 \<in> set (loaders (page b))" "ld_item l0 = ld_item l"
        by auto
      then have "ld_item l < next_node (page b)"
        "\<not> hasClass ''hidpi-ready'' (nodes (page b) (ld_item l))"
        "regions_of (ld_item l) (zg b) = []"
        using c by (auto simp: consistent_def)
      then show ?thesis
        by (auto simp: nx ready regions_of_def z' filter_empty_conv)
    next
      case new
      then have w: "w \<in> set ?wps" "hit win w"
        by auto
      obtain j where j: "j < next_node (page b)" "w = region_for (page b) j"
        "\<not> hasClass ''hidpi-ready'' (nodes (page b) j)"
        using wp [OF w(1)] by auto
      have lj: "ld_item l = j"
        using new(2) j(2) by (simp add: region_for_def)
      have "\<not> (j \<in> set (wp_callbackArgs w'))" if w': "w' \<in> set (waypoints z')" for w'
      proof
        assume "j \<in> set (wp_callbackArgs w')"
        moreover obtain j' where "w' = region_for (page b) j'"
          using wp [of w'] w' by (auto simp: z')
        ultimately have "w' = w"
          using j(2) by (simp add: region_for_def)
        then show False
          using w' w(2) j(2) by (simp add: z' region_for_def)
      qed
      then have "regions_of j z' = []"
        by (simp add: regions_of_def filter_empty_conv)
      then show ?thesis
        using j lj by (simp add: nx ready)
    qed
  qed
  show ?thesis
    using c1 c2 c3 by (simp add: consistent_def)
qed

lemma dormant_update:
  assumes d: "dormant j b"
    and u: "update apply_callback win (zg b, page b) = Inr (z', p')"
  shows "dormant j (b\<lparr>zg := z', page := p'\<rparr>) \<and> load_count j p' = load_count j (page b) \<and>
         keeps (nodes (page b) j) (nodes p' j)"
proof -
  let ?wps = "waypoints (zg b)"
  let ?fired = "rev (filter (hit win) ?wps)"
  have z': "waypoints z' = filter (\<lambda>w. \<not> (hit win w \<and> wp_oneShot w)) ?wps"
    and p': "p' = fold (invoke apply_callback) ?fired (page b)"
    using u by (auto simp: update_eq)
  have nx: "next_node p' = next_node (page b)"
    and k: "keeps (nodes (page b) j) (nodes p' j)"
    using fold_invoke_page [of ?fired "page b" j] by (simp_all add: p')
  have none: "\<forall>w \<in> set ?wps. j \<notin> set (wp_callbackArgs w)"
    using d by (simp add: dormant_def regions_of_def filter_empty_conv)
  then have "load_count j p' = load_count j (page b)"
    unfolding p' by (intro fold_invoke_count) simp
  moreover have "regions_of j z' = []"
    using none by (simp add: regions_of_def z' filter_empty_conv)
  ultimately show ?thesis
    using d k by (simp add: dormant_def nx keeps_def)
qed

lemma dispatch_invariant:
  assumes inv: "\<And>b z' p'. Q b \<Longrightarrow> update apply_callback win (zg b, page b) = Inr (z', p') \<Longrightarrow>
                  Q (b\<lparr>zg := z', page := p'\<rparr>)"
    and "Q b"
  shows "\<exists>z' p'. dispatch_scroll apply_callback win n (zg b, page b) = Inr (z', p') \<and>
           Q (b\<lparr>zg := z', page := p'\<rparr>)"
  using \<open>Q b\<close>
proof (induction n arbitrary: b)
  case 0
  then show ?case by simp
next
  case (Suc n)
  obtain z1 p1 where u: "update apply_callback win (zg b, page b) = Inr (z1, p1)"
    by (simp add: update_eq)
  let ?b1 = "b\<lparr>zg := z1, page := p1\<rparr>"
  have "Q ?b1"
    using inv [OF Suc.prems u] .
  from Suc.IH [OF this] obtain z' p' where
    "dispatch_scroll apply_callback win n (zg ?b1, page ?b1) = Inr (z', p')"
    "Q (?b1\<lparr>zg := z', page := p'\<rparr>)"
    by blast
  then show ?case
    using u by simp
qed

lemma scroll_step:
  assumes inv: "\<And>b z' p'. Q b \<Longrightarrow>
        update apply_callback (the_window b) (zg b, page b) = Inr (z', p') \<Longrightarrow>
        the_window b = w \<Longrightarrow> Q (b\<lparr>zg := z', page := p'\<rparr>)"
    and win: "\<And>b. Q b \<Longrightarrow> Q (b\<lparr>the_window := w\<rparr>)"
    and w: "w = (the_window b)\<lparr>win_scrollTop := y\<rparr>"
    and "Q b"
  shows "Q (step (Scroll y) b)"
proof -
  let ?b1 = "b\<lparr>the_window := w\<rparr>"
  have q1: "Q ?b1 \<and> the_window ?b1 = w"
    using win [OF \<open>Q b\<close>] by simp
  have "\<exists>z' p'. dispatch_scroll apply_callback w (scrollHandlers (zg ?b1)) (zg ?b1, page ?b1)
            = Inr (z', p') \<and>
          (Q (?b1\<lparr>zg := z', page := p'\<rparr>) \<and> the_window (?b1\<lparr>zg := z', page := p'\<rparr>) = w)"
    by (rule dispatch_invariant [where Q = "\<lambda>b. Q b \<and> the_window b = w", OF _ q1])
       (auto intro: inv)
  then show ?thesis
    using w by (auto simp: scroll_event_def Let_def)
qed

subsection \<open>The invariant\<close>

lemma selected_iff:
  "i \<in> set (selected p) \<longleftrightarrow>
     i \<in> set (document p) \<and> hasClass ''hidpi-ready'' (nodes p i) \<and>
     js_lt HIDPI_BREAKPOINT (el_width (nodes p i))"
  by (auto simp: selected_def)

lemma initial_consistent: "initial b \<Longrightarrow> consistent b"
  by (simp add: initial_def consistent_def)

lemma consistent_window: "consistent (b\<lparr>the_window := w\<rparr>) = consistent b"
  by (simp add: consistent_def)

lemma consistent_scan:
  assumes c: "consistent b"
  shows "consistent (checkForHiDPIElements b)"
proof -
  let ?b' = "checkForHiDPIElements b"
  let ?p = "page b"
  let ?sel = "selected ?p"
  let ?inv = "item_in_view (the_window b) ?p"
  have doc: "\<And>i. i \<in> set (document ?p) \<Longrightarrow> i < next_node ?p"
    using c by (simp add: consistent_def)
  have wp: "\<exists>j. j < next_node ?p \<and> w = region_for ?p j \<and>
              \<not> hasClass ''hidpi-ready'' (nodes ?p j)" if "w \<in> set (waypoints (zg b))" for w
    using c that by (simp add: consistent_def)
  have ready': "hasClass ''hidpi-ready'' (nodes (page ?b') i) =
        (i \<notin> set ?sel \<and> hasClass ''hidpi-ready'' (nodes ?p i))" for i
    using scan_node [of b i] by simp
  have c1: "\<forall>i \<in> set (document (page ?b')). i < next_node (page ?b')"
    using doc by (simp add: scan_rest)
  have c3: "\<exists>j. j < next_node (page ?b') \<and> w = region_for (page ?b') j \<and>
              \<not> hasClass ''hidpi-ready'' (nodes (page ?b') j)"
    if mem: "w \<in> set (waypoints (zg ?b'))" for w
  proof -
    consider (old) "w \<in> set (waypoints (zg b))"
      | (new) j where "j \<in> set ?sel" "w = region_for ?p j"
      using mem by (auto simp: scan_waypoints)
    then show ?thesis
    proof cases
      case old
      then show ?thesis
        using wp [of w] by (auto simp: scan_rest scan_region ready')
    next
      case new
      then have "j < next_node ?p"
        using doc by (simp add: selected_iff)
      then show ?thesis
        using new by (auto simp: scan_rest scan_region ready')
    qed
  qed
  have c2: "ld_item l < next_node (page ?b') \<and>
            \<not> hasClass ''hidpi-ready'' (nodes (page ?b') (ld_item l)) \<and>
            regions_of (ld_item l) (zg ?b') = []" if mem: "l \<in> set (loaders (page ?b'))" for l
  proof -
    have "ld_item l \<in> set (map ld_item (loaders (page ?b')))"
      using mem by simp
    then consider (old) l0 where "l0 \<in> set (loaders ?p)" "ld_item l0 = ld_item l"
      | (new) "ld_item l \<in> set ?sel" "?inv (ld_item l)"
      unfolding scan_loaders by auto
    then show ?thesis
    proof cases
      case old
      then have o: "ld_item l < next_node ?p" "\<not> hasClass ''hidpi-ready'' (nodes ?p (ld_item l))"
        "regions_of (ld_item l) (zg b) = []"
        using c by (auto simp: consistent_def)
      then have "ld_item l \<notin> set ?sel"
        by (simp add: selected_iff)
      then show ?thesis
        using o scan_untouched [of "ld_item l" b] by (simp add: scan_rest)
    next
      case new
      have a: "ld_item l < next_node ?p"
        using new(1) doc by (simp add: selected_iff)
      have "ld_item l \<notin> set (wp_callbackArgs w)" if w: "w \<in> set (waypoints (zg b))" for w
      proof
        assume "ld_item l \<in> set (wp_callbackArgs w)"
        moreover obtain j where "w = region_for ?p j" "\<not> hasClass ''hidpi-ready'' (nodes ?p j)"
          using wp [OF w] by auto
        ultimately have "\<not> hasClass ''hidpi-ready'' (nodes ?p (ld_item l))"
          by (simp add: region_for_def)
        then show False
          using new(1) by (simp add: selected_iff)
      qed
      then have "regions_of (ld_item l) (zg ?b') = []"
        using new(2)
        by (auto simp: regions_of_def scan_waypoints regions_new filter_empty_conv)
      then show ?thesis
        using a new(1) by (simp add: scan_rest ready')
    qed
  qed
  show ?thesis
    using c1 c2 c3 by (simp add: consistent_def)
qed

lemma consistent_page:
  assumes c: "consistent b" and a: "advances (page b) p'"
    and l: "map ld_item (loaders p') = map ld_item (loaders (page b))"
  shows "consistent (b\<lparr>page := p'\<rparr>)"
proof -
  let ?p = "page b"
  have nx: "next_node ?p \<le> next_node p'"
    and k: "\<And>i. i < next_node ?p \<Longrightarrow> keeps (nodes ?p i) (nodes p' i)"
    and d: "\<And>i. i \<in> set (document p') \<Longrightarrow>
               i \<in> set (document ?p) \<or> (next_node ?p \<le> i \<and> i < next_node p')"
    using a by (simp_all add: advances_def)
  have ready: "hasClass ''hidpi-ready'' (nodes p' i) = hasClass ''hidpi-ready'' (nodes ?p i)"
    if "i < next_node ?p" for i
    using k [OF that] by (simp add: keeps_def)
  have c1: "\<forall>i \<in> set (document p'). i < next_node p'"
    using c d nx by (fastforce simp: consistent_def)
  have c3: "\<exists>j. j < next_node p' \<and> w = region_for p' j \<and> \<not> hasClass ''hidpi-ready'' (nodes p' j)"
    if mem: "w \<in> set (waypoints (zg b))" for w
  proof -
    obtain j where j: "j < next_node ?p" "w = region_for ?p j"
      "\<not> hasClass ''hidpi-ready'' (nodes ?p j)"
      using c mem by (auto simp: consistent_def)
    have "j < next_node p'"
      using j(1) nx by simp
    then show ?thesis
      using j region_for_keeps [OF k [OF j(1)]] ready [OF j(1)] by auto
  qed
  have c2: "ld_item l < next_node p' \<and> \<not> hasClass ''hidpi-ready'' (nodes p' (ld_item l)) \<and>
            regions_of (ld_item l) (zg b) = []" if mem: "l \<in> set (loaders p')" for l
  proof -
    have "ld_item l \<in> set (map ld_item (loaders p'))"
      using mem by simp
    then obtain l0 where "l0 \<in> set (loaders ?p)" "ld_item l0 = ld_item l"
      unfolding l by auto
    then have o: "ld_item l < next_node ?p" "\<not> hasClass ''hidpi-ready'' (nodes ?p (ld_item l))"
      "regions_of (ld_item l) (zg b) = []"
      using c by (auto simp: consistent_def)
    then show ?thesis
      using nx ready [OF o(1)] by simp
  qed
  show ?thesis
    using c1 c2 c3 by (simp add: consistent_def regions_of_def)
qed

lemma consistent_step: "consistent b \<Longrightarrow> consistent (step ev b)"
proof (cases ev)
  case Scan
  assume "consistent b"
  then show ?thesis using Scan by (simp add: consistent_scan)
next
  case (Scroll y)
  assume c: "consistent b"
  show ?thesis
    unfolding Scroll
    by (rule scroll_step [where Q = consistent and w = "(the_window b)\<lparr>win_scrollTop := y\<rparr>"])
       (simp_all add: consistent_update consistent_window c)
next
  case (LoadSuccess k)
  assume c: "consistent b"
  obtain p' where "step ev b = b\<lparr>page := p'\<rparr>" "advances (page b) p'"
    "map ld_item (loaders p') = map ld_item (loaders (page b))"
    using page_event [of ev k b] LoadSuccess by blast
  then show ?thesis using c by (simp add: consistent_page)
next
  case (LoadError k)
  assume c: "consistent b"
  obtain p' where "step ev b = b\<lparr>page := p'\<rparr>" "advances (page b) p'"
    "map ld_item (loaders p') = map ld_item (loaders (page b))"
    using page_event [of ev k b] LoadError by blast
  then show ?thesis using c by (simp add: consistent_page)
next
  case (FadeComplete k)
  assume c: "consistent b"
  obtain p' where "step ev b = b\<lparr>page := p'\<rparr>" "advances (page b) p'"
    "map ld_item (loaders p') = map ld_item (loaders (page b))"
    using page_event [of ev k b] FadeComplete by blast
  then show ?thesis using c by (simp add: consistent_page)
next
  case (Parse e)
  assume c: "consistent b"
  obtain p' where "step ev b = b\<lparr>page := p'\<rparr>" "advances (page b) p'"
    "map ld_item (loaders p') = map ld_item (loaders (page b))"
    using parse_event [of e b] Parse by blast
  then show ?thesis using c by (simp add: consistent_page)
qed

lemma consistent_run: "consistent b \<Longrightarrow> consistent (run evs b)"
  unfolding run_def by (induction evs arbitrary: b) (simp_all add: consistent_step)

subsection \<open>Dormant elements\<close>

lemma dormant_window: "dormant j (b\<lparr>the_window := w\<rparr>) = dormant j b"
  by (simp add: dormant_def)

lemma dormant_scan:
  assumes "dormant j b"
  shows "dormant j (checkForHiDPIElements b) \<and>
         load_count j (page (checkForHiDPIElements b)) = load_count j (page b) \<and>
         keeps (nodes (page b) j) (nodes (page (checkForHiDPIElements b)) j)"
proof -
  have "j \<notin> set (selected (page b))"
    using assms by (auto simp: dormant_def selected_iff)
  then show ?thesis
    using assms scan_untouched [of j b] by (simp add: dormant_def scan_rest keeps_refl)
qed

lemma dormant_page:
  assumes d: "dormant j b" and a: "advances (page b) p'"
    and l: "map ld_item (loaders p') = map ld_item (loaders (page b))"
  shows "dormant j (b\<lparr>page := p'\<rparr>) \<and> load_count j p' = load_count j (page b) \<and>
         keeps (nodes (page b) j) (nodes p' j)"
proof -
  have j: "j < next_node (page b)"
    using d by (simp add: dormant_def)
  then have k: "keeps (nodes (page b) j) (nodes p' j)" and nx: "j < next_node p'"
    using a by (auto simp: advances_def)
  show ?thesis
    using d k nx by (simp add: dormant_def keeps_def load_count_map l)
qed

lemma dormant_step:
  assumes d: "dormant j b"
  shows "dormant j (step ev b) \<and> load_count j (page (step ev b)) = load_count j (page b) \<and>
         keeps (nodes (page b) j) (nodes (page (step ev b)) j)"
proof -
  have pe: ?thesis if kind: "ev = LoadSuccess k \<or> ev = LoadError k \<or> ev = FadeComplete k" for k
  proof -
    obtain p' where "step ev b = b\<lparr>page := p'\<rparr>" "advances (page b) p'"
      "map ld_item (loaders p') = map ld_item (loaders (page b))"
      using page_event [OF kind, of b] by blast
    then show ?thesis
      using dormant_page [OF d, of p'] by simp
  qed
  show ?thesis
  proof (cases ev)
    case Scan
    then show ?thesis using dormant_scan [OF d] by simp
  next
    case (Scroll y)
    let ?Q = "\<lambda>b'. dormant j b' \<and> load_count j (page b') = load_count j (page b) \<and>
                keeps (nodes (page b) j) (nodes (page b') j)"
    have "?Q (step (Scroll y) b)"
    proof (rule scroll_step [where Q = ?Q and w = "(the_window b)\<lparr>win_scrollTop := y\<rparr>"])
      fix b1 z' p'
      assume q: "?Q b1"
        and u: "update apply_callback (the_window b1) (zg b1, page b1) = Inr (z', p')"
      have "dormant j (b1\<lparr>zg := z', page := p'\<rparr>)" "load_count j p' = load_count j (page b1)"
        "keeps (nodes (page b1) j) (nodes p' j)"
        using dormant_update [OF _ u, of j] q by simp_all
      then show "?Q (b1\<lparr>zg := z', page := p'\<rparr>)"
        using q by (auto intro: keeps_trans)
    next
      fix b1
      assume "?Q b1"
      then show "?Q (b1\<lparr>the_window := (the_window b)\<lparr>win_scrollTop := y\<rparr>\<rparr>)"
        by (simp add: dormant_window)
    next
      show "?Q b"
        using d by (simp add: keeps_refl)
    qed simp
    then show ?thesis using Scroll by simp
  next
    case (LoadSuccess k)
    then show ?thesis using pe [of k] by simp
  next
    case (LoadError k)
    then show ?thesis using pe [of k] by simp
  next
    case (FadeComplete k)
    then show ?thesis using pe [of k] by simp
  next
    case (Parse e)
    obtain p' where "step ev b = b\<lparr>page := p'\<rparr>" "advances (page b) p'"
      "map ld_item (loaders p') = map ld_item (loaders (page b))"
      using parse_event [of e b] Parse by blast
    then show ?thesis
      using dormant_page [OF d, of p'] by simp
  qed
qed

lemma dormant_run:
  "dormant j b \<Longrightarrow>
   dormant j (run evs b) \<and> load_count j (page (run evs b)) = load_count j (page b) \<and>
   keeps (nodes (page b) j) (nodes (page (run evs b)) j)"
proof (induction evs arbitrary: b)
  case Nil
  then show ?case by (simp add: run_def keeps_refl)
next
  case (Cons ev evs)
  have s: "dormant j (step ev b)" "load_count j (page (step ev b)) = load_count j (page b)"
    "keeps (nodes (page b) j) (nodes (page (step ev b)) j)"
    using dormant_step [OF Cons.prems, of ev] by simp_all
  have r: "run (ev # evs) b = run evs (step ev b)"
    by (simp add: run_def)
  show ?case
    unfolding r using Cons.IH [OF s(1)] s(2,3) by (auto intro: keeps_trans)
qed

lemma scans_untouched:
  assumes "\<not> (hasClass ''hidpi-ready'' (nodes (page b) i) \<and>
              js_lt HIDPI_BREAKPOINT (el_width (nodes (page b) i)))"
  shows "nodes (page ((checkForHiDPIElements ^^ n) b)) i = nodes (page b) i \<and>
         load_count i (page ((checkForHiDPIElements ^^ n) b)) = load_count i (page b) \<and>
         regions_of i (zg ((checkForHiDPIElements ^^ n) b)) = regions_of i (zg b)"
proof (induction n)
  case 0
  show ?case by simp
next
  case (Suc n)
  let ?b = "(checkForHiDPIElements ^^ n) b"
  have "i \<notin> set (selected (page ?b))"
    using assms Suc by (auto simp: selected_iff)
  then show ?case
    using scan_untouched [of i ?b] Suc by simp
qed

subsection \<open>Marks set by one scan\<close>

lemma each_item_mark:
  "hasClass (if item_in_view (the_window b) (page b) j then ''hidpi-loading'' else ''hidpi-pending'')
     (nodes (page (each_item j b)) j)"
  by (simp add: each_item_eq preload_classes nodes_on_node hasClass_addClass)

lemma each_item_mark_kept:
  assumes "hasClass (if item_in_view (the_window b) (page b) j then ''hidpi-loading'' else ''hidpi-pending'')
     (nodes (page b) j)"
  shows "hasClass (if item_in_view (the_window b) (page b) j then ''hidpi-loading'' else ''hidpi-pending'')
     (nodes (page (each_item k b)) j)"
proof (cases "k = j")
  case True
  then show ?thesis using each_item_mark [of b j] by simp
next
  case False
  then show ?thesis using assms by (simp add: each_item_other)
qed

lemma fold_each_item_mark_kept:
  "hasClass (if item_in_view (the_window b) (page b) j then ''hidpi-loading'' else ''hidpi-pending'')
     (nodes (page b) j) \<Longrightarrow>
   hasClass (if item_in_view (the_window b) (page b) j then ''hidpi-loading'' else ''hidpi-pending'')
     (nodes (page (fold each_item sel b)) j)"
proof (induction sel arbitrary: b)
  case Nil
  then show ?case by simp
next
  case (Cons k sel)
  have v: "item_in_view (the_window (each_item k b)) (page (each_item k b)) j =
           item_in_view (the_window b) (page b) j"
    by (simp add: each_item_view each_item_rest)
  have "hasClass (if item_in_view (the_window (each_item k b)) (page (each_item k b)) j
                  then ''hidpi-loading'' else ''hidpi-pending'')
     (nodes (page (fold each_item sel (each_item k b))) j)"
    by (rule Cons.IH) (use each_item_mark_kept [OF Cons.prems, of k] v in simp)
  then show ?case
    using v by simp
qed

lemma fold_each_item_mark:
  "j \<in> set sel \<Longrightarrow>
   hasClass (if item_in_view (the_window b) (page b) j then ''hidpi-loading'' else ''hidpi-pending'')
     (nodes (page (fold each_item sel b)) j)"
proof (induction sel arbitrary: b)
  case Nil
  then show ?case by simp
next
  case (Cons k sel)
  have v: "item_in_view (the_window (each_item k b)) (page (each_item k b)) j =
           item_in_view (the_window b) (page b) j"
    by (simp add: each_item_view each_item_rest)
  show ?case
  proof (cases "k = j")
    case True
    have "hasClass (if item_in_view (the_window (each_item k b)) (page (each_item k b)) j
                  then ''hidpi-loading'' else ''hidpi-pending'')
      (nodes (page (fold each_item sel (each_item k b))) j)"
      by (rule fold_each_item_mark_kept) (use each_item_mark [of b j] True v in simp)
    then show ?thesis using v by simp
  next
    case False
    then have "j \<in> set sel" using Cons.prems by simp
    from Cons.IH [OF this, of "each_item k b"] show ?thesis
      using v by simp
  qed
qed

lemma scan_mark:
  "j \<in> set (selected (page b)) \<Longrightarrow>
   hasClass (if item_in_view (the_window b) (page b) j then ''hidpi-loading'' else ''hidpi-pending'')
     (nodes (page (checkForHiDPIElements b)) j)"
  using fold_each_item_mark [of j "selected (page b)"
      "b\<lparr>page := fold (\<lambda>i. on_node i (removeClass ''hidpi-ready'')) (selected (page b)) (page b)\<rparr>"]
  by (simp add: scan_eq unready_view)

subsection \<open>The claims about the controller\<close>

lemmas sample_defs = sample_browser_def sample_page_def sample_element_def sample_window_def
  blank_element_def

lemmas code_defs = checkForHiDPIElements_def each_item_def preloadHiDPIImage_def on_node_def
  hasClass_def addClass_def removeClass_def attr_get_def HIDPI_BREAKPOINT_def PRELOAD_SCHEME_def
  inView_def add_def number_defs

lemma sample_scan: "checkForHiDPIElements sample_browser = sample_scanned"
  by (simp add: sample_scanned_def sample_defs code_defs fun_upd_twist)

lemma sample_initial: "initial sample_browser"
  by (simp add: initial_def sample_defs)

text \<open>
  Claim C1 says that for an IMG element whose fetch succeeds the load handler positions
  the parent, inserts a clone as overlay, swaps \<open>src\<close>, marks the element loaded, removes
  \<open>data-hidpi-src\<close> and fades the overlay out. The handler does none of it: \<open>$parent\<close> is
  the method \<open>jQuery.fn.parent\<close>, not its result, and \<open>$parent.css\<close> raises a TypeError
  before anything is changed. On the sample page, after the load event of the image's
  loader the nodes and the document are as before, no overlay fades, and the image still
  carries \<open>hidpi-loading\<close> alone.
\<close>

theorem hiDPILoaded_raises_for_img:
  "checkForHiDPIElements sample_browser = sample_scanned \<and>
   tagName (nodes (page sample_scanned) 1) = ''IMG'' \<and>
   loader_fires 1 (page sample_scanned) = Some (1, ''hi.jpg'') \<and>
   hiDPILoaded 1 ''hi.jpg'' (mark_done 1 (page sample_scanned)) = Inl TypeError \<and>
   nodes (page (step (LoadSuccess 1) sample_scanned)) = nodes (page sample_scanned) \<and>
   document (page (step (LoadSuccess 1) sample_scanned)) = [0, 1, 2, 3, 4] \<and>
   fading (page (step (LoadSuccess 1) sample_scanned)) = [] \<and>
   state_markers (nodes (page (run [Scan, LoadSuccess 1] sample_browser)) 1) = [''hidpi-loading'']"
proof -
  have t: "tagName (nodes (page sample_scanned) 1) = ''IMG''"
    by (simp add: sample_scanned_def sample_element_def)
  have f: "loader_fires 1 (page sample_scanned) = Some (1, ''hi.jpg'')"
    by (simp add: sample_scanned_def loader_fires_def)
  have r: "hiDPILoaded 1 ''hi.jpg'' (mark_done 1 (page sample_scanned)) = Inl TypeError"
    by (simp add: hiDPILoaded_def loaded_img_def call_css_get_def mark_done_def
        sample_scanned_def sample_element_def)
  have s: "step (LoadSuccess 1) sample_scanned =
           sample_scanned\<lparr>page := mark_done 1 (page sample_scanned)\<rparr>"
    using f r by simp
  have m: "state_markers (nodes (page sample_scanned) 1) = [''hidpi-loading'']"
    by (simp add: sample_scanned_def sample_element_def state_markers_def lifecycle_classes_def)
  show ?thesis
    using t f r m sample_scan
    by (simp add: s run_def mark_done_def) (simp add: sample_scanned_def)
qed

text \<open>
  Claim C3 says that after every operation of the controller exactly one lifecycle marker
  is on the element. \<open>hiDPIError\<close> removes the class \<open>hidpi-processing\<close>, which nothing
  sets, and not \<open>hidpi-loading\<close>: on the sample page, the container whose fetch fails
  carries one marker before the error event and two after it, \<open>hidpi-loading\<close> and
  \<open>hidpi-error\<close>.
\<close>

theorem hiDPIError_leaves_loading_marker:
  "checkForHiDPIElements sample_browser = sample_scanned \<and>
   state_markers (nodes (page sample_scanned) 0) = [''hidpi-loading''] \<and>
   loader_fires 0 (page sample_scanned) = Some (0, ''hi.jpg'') \<and>
   state_markers (nodes (hiDPIError 0 ''hi.jpg'' (mark_done 0 (page sample_scanned))) 0) =
     [''hidpi-loading'', ''hidpi-error''] \<and>
   state_markers (nodes (page (run [Scan, LoadError 0] sample_browser)) 0) =
     [''hidpi-loading'', ''hidpi-error'']"
proof -
  have f: "loader_fires 0 (page sample_scanned) = Some (0, ''hi.jpg'')"
    by (simp add: sample_scanned_def loader_fires_def)
  have e: "state_markers (nodes (hiDPIError 0 ''hi.jpg'' (mark_done 0 (page sample_scanned))) 0) =
     [''hidpi-loading'', ''hidpi-error'']"
    by (simp add: hiDPIError_def mark_done_def on_node_def addClass_def removeClass_def
        sample_scanned_def sample_element_def state_markers_def lifecycle_classes_def)
  have m: "state_markers (nodes (page sample_scanned) 0) = [''hidpi-loading'']"
    by (simp add: sample_scanned_def sample_element_def state_markers_def lifecycle_classes_def)
  show ?thesis
    using f e m sample_scan by (simp add: run_def)
qed

text \<open>
  Claim C5. \<open>checkForHiDPIElements\<close> leaves an element without the ready marker as it
  is, starts no load for it and registers no waypoint for it. Calling it again, any
  number of times, changes nothing more. For an element of a document without repeated
  nodes that is ready and wider than the breakpoint, any number of calls makes exactly
  one transition: one loader or one waypoint more for it, the ready marker gone, and
  \<open>hidpi-loading\<close> set when it is in view, \<open>hidpi-pending\<close> when it is not.
\<close>

theorem scan_acts_on_ready_elements_once:
  "(\<not> hasClass ''hidpi-ready'' (nodes (page b) i) \<longrightarrow>
      nodes (page (checkForHiDPIElements b)) i = nodes (page b) i \<and>
      load_count i (page (checkForHiDPIElements b)) = load_count i (page b) \<and>
      regions_of i (zg (checkForHiDPIElements b)) = regions_of i (zg b)) \<and>
   (checkForHiDPIElements ^^ Suc n) b = checkForHiDPIElements b \<and>
   (distinct (document (page b)) \<and> j \<in> set (document (page b)) \<and>
    hasClass ''hidpi-ready'' (nodes (page b) j) \<and>
    js_lt HIDPI_BREAKPOINT (el_width (nodes (page b) j)) \<longrightarrow>
      load_count j (page ((checkForHiDPIElements ^^ Suc n) b)) +
        length (regions_of j (zg ((checkForHiDPIElements ^^ Suc n) b))) =
        load_count j (page b) + length (regions_of j (zg b)) + 1 \<and>
      \<not> hasClass ''hidpi-ready'' (nodes (page ((checkForHiDPIElements ^^ Suc n) b)) j) \<and>
      hasClass (if item_in_view (the_window b) (page b) j
                then ''hidpi-loading'' else ''hidpi-pending'')
        (nodes (page ((checkForHiDPIElements ^^ Suc n) b)) j))"
proof (intro conjI impI)
  assume "\<not> hasClass ''hidpi-ready'' (nodes (page b) i)"
  then have "i \<notin> set (selected (page b))"
    by (simp add: selected_iff)
  then show "nodes (page (checkForHiDPIElements b)) i = nodes (page b) i"
    "load_count i (page (checkForHiDPIElements b)) = load_count i (page b)"
    "regions_of i (zg (checkForHiDPIElements b)) = regions_of i (zg b)"
    using scan_untouched [of i b] by simp_all
next
  show "(checkForHiDPIElements ^^ Suc n) b = checkForHiDPIElements b"
    by (rule scans_collapse)
next
  assume a: "distinct (document (page b)) \<and> j \<in> set (document (page b)) \<and>
    hasClass ''hidpi-ready'' (nodes (page b) j) \<and>
    js_lt HIDPI_BREAKPOINT (el_width (nodes (page b) j))"
  then have sel: "j \<in> set (selected (page b))" and d: "distinct (selected (page b))"
    by (simp_all add: selected_iff) (simp add: selected_def)
  have one: "length (filter (\<lambda>x. x = j) (selected (page b))) = 1"
    using d sel by (rule distinct_once)
  show "load_count j (page ((checkForHiDPIElements ^^ Suc n) b)) +
        length (regions_of j (zg ((checkForHiDPIElements ^^ Suc n) b))) =
        load_count j (page b) + length (regions_of j (zg b)) + 1"
    unfolding scans_collapse using scan_counts [of j b] one by simp
  show "\<not> hasClass ''hidpi-ready'' (nodes (page ((checkForHiDPIElements ^^ Suc n) b)) j)"
    unfolding scans_collapse using scan_node [of b j] sel by simp
  show "hasClass (if item_in_view (the_window b) (page b) j
                then ''hidpi-loading'' else ''hidpi-pending'')
        (nodes (page ((checkForHiDPIElements ^^ Suc n) b)) j)"
    unfolding scans_collapse using scan_mark [OF sel] .
qed

text \<open>
  Claim C9. An element whose width does not exceed the breakpoint is left as it is by
  any number of calls of \<open>checkForHiDPIElements\<close>: the node is unchanged, no load is
  started and no waypoint registered for it. When moreover no waypoint is registered for
  it (as when the script starts), no sequence of events at all removes its ready marker
  or starts a load for it.
\<close>

theorem narrow_element_stays_ready:
  assumes "\<not> js_lt HIDPI_BREAKPOINT (el_width (nodes (page b) i))"
  shows "nodes (page ((checkForHiDPIElements ^^ n) b)) i = nodes (page b) i \<and>
         load_count i (page ((checkForHiDPIElements ^^ n) b)) = load_count i (page b) \<and>
         regions_of i (zg ((checkForHiDPIElements ^^ n) b)) = regions_of i (zg b) \<and>
         (i < next_node (page b) \<and> regions_of i (zg b) = [] \<longrightarrow>
            hasClass ''hidpi-ready'' (nodes (page (run evs b)) i) =
              hasClass ''hidpi-ready'' (nodes (page b) i) \<and>
            load_count i (page (run evs b)) = load_count i (page b) \<and>
            regions_of i (zg (run evs b)) = [])"
proof -
  have n: "\<not> (hasClass ''hidpi-ready'' (nodes (page b) i) \<and>
              js_lt HIDPI_BREAKPOINT (el_width (nodes (page b) i)))"
    using assms by simp
  have ev: "hasClass ''hidpi-ready'' (nodes (page (run evs b)) i) =
              hasClass ''hidpi-ready'' (nodes (page b) i) \<and>
            load_count i (page (run evs b)) = load_count i (page b) \<and>
            regions_of i (zg (run evs b)) = []"
    if h: "i < next_node (page b) \<and> regions_of i (zg b) = []"
  proof -
    have "dormant i b"
      using h n by (simp add: dormant_def)
    from dormant_run [OF this, of evs] show ?thesis
      by (simp add: dormant_def keeps_def)
  qed
  show ?thesis
    using scans_untouched [OF n, of n] ev by simp
qed

text \<open>
  Claim C6. In a browser reached from the start of the script, when the fetch of a
  loader fails, the error handler puts the marker \<open>hidpi-error\<close> on the loader's element;
  through every later sequence of events the marker stays, the element is not ready, so
  \<open>checkForHiDPIElements\<close> does not select it and leaves it as it is, no waypoint is
  registered for it, and no further load is started for it.
\<close>

theorem load_error_is_terminal:
  assumes "initial b0" and "b = run evs b0"
    and "loader_fires k (page b) = Some (item, src)"
  shows "hasClass ''hidpi-error'' (nodes (page (step (LoadError k) b)) item) \<and>
         (\<forall>evs'. hasClass ''hidpi-error'' (nodes (page (run evs' (step (LoadError k) b))) item) \<and>
             \<not> hasClass ''hidpi-ready'' (nodes (page (run evs' (step (LoadError k) b))) item) \<and>
             nodes (page (checkForHiDPIElements (run evs' (step (LoadError k) b)))) item =
               nodes (page (run evs' (step (LoadError k) b))) item \<and>
             load_count item (page (run evs' (step (LoadError k) b))) = load_count item (page b) \<and>
             regions_of item (zg (run evs' (step (LoadError k) b))) = [])"
proof -
  let ?b1 = "step (LoadError k) b"
  have c: "consistent b"
    using assms(1,2) by (simp add: initial_consistent consistent_run)
  have mem: "loaders (page b) ! k \<in> set (loaders (page b))" "ld_item (loaders (page b) ! k) = item"
    using assms(3) by (auto simp: loader_fires_def split: if_splits option.splits)
  have d: "dormant item b" and nr: "\<not> hasClass ''hidpi-ready'' (nodes (page b) item)"
    using c mem by (auto simp: consistent_def dormant_def)
  have s1: "dormant item ?b1" "load_count item (page ?b1) = load_count item (page b)"
    "keeps (nodes (page b) item) (nodes (page ?b1) item)"
    using dormant_step [OF d, of "LoadError k"] by simp_all
  have e1: "hasClass ''hidpi-error'' (nodes (page ?b1) item)"
    using assms(3) by (simp add: hiDPIError_rest)
  have nr1: "\<not> hasClass ''hidpi-ready'' (nodes (page ?b1) item)"
    using s1(3) nr by (simp add: keeps_def)
  have later: "hasClass ''hidpi-error'' (nodes (page (run evs' ?b1)) item) \<and>
             \<not> hasClass ''hidpi-ready'' (nodes (page (run evs' ?b1)) item) \<and>
             nodes (page (checkForHiDPIElements (run evs' ?b1))) item =
               nodes (page (run evs' ?b1)) item \<and>
             load_count item (page (run evs' ?b1)) = load_count item (page b) \<and>
             regions_of item (zg (run evs' ?b1)) = []" for evs'
  proof -
    have r: "dormant item (run evs' ?b1)"
      "load_count item (page (run evs' ?b1)) = load_count item (page ?b1)"
      "keeps (nodes (page ?b1) item) (nodes (page (run evs' ?b1)) item)"
      using dormant_run [OF s1(1), of evs'] by simp_all
    have nr2: "\<not> hasClass ''hidpi-ready'' (nodes (page (run evs' ?b1)) item)"
      using r(3) nr1 by (simp add: keeps_def)
    then have "item \<notin> set (selected (page (run evs' ?b1)))"
      by (simp add: selected_iff)
    then have "nodes (page (checkForHiDPIElements (run evs' ?b1))) item =
               nodes (page (run evs' ?b1)) item"
      using scan_untouched by blast
    then show ?thesis
      using r e1 nr2 s1(2) by (simp add: keeps_def dormant_def)
  qed
  show ?thesis
    using e1 later by blast
qed


theorem scan_acts_on_ready_elements_once_witness:
  "\<not> hasClass ''hidpi-ready'' (nodes (page sample_browser) 4) \<and>
   nodes (page (checkForHiDPIElements sample_browser)) 4 = nodes (page sample_browser) 4 \<and>
   load_count 4 (page (checkForHiDPIElements sample_browser)) = load_count 4 (page sample_browser) \<and>
   regions_of 4 (zg (checkForHiDPIElements sample_browser)) = regions_of 4 (zg sample_browser) \<and>
   (checkForHiDPIElements ^^ Suc 2) sample_browser = checkForHiDPIElements sample_browser \<and>
   distinct (document (page sample_browser)) \<and> 0 \<in> set (document (page sample_browser)) \<and>
   hasClass ''hidpi-ready'' (nodes (page sample_browser) 0) \<and>
   js_lt HIDPI_BREAKPOINT (el_width (nodes (page sample_browser) 0)) \<and>
   load_count 0 (page ((checkForHiDPIElements ^^ Suc 2) sample_browser)) +
     length (regions_of 0 (zg ((checkForHiDPIElements ^^ Suc 2) sample_browser))) =
     load_count 0 (page sample_browser) + length (regions_of 0 (zg sample_browser)) + 1 \<and>
   \<not> hasClass ''hidpi-ready'' (nodes (page ((checkForHiDPIElements ^^ Suc 2) sample_browser)) 0) \<and>
   hasClass (if item_in_view (the_window sample_browser) (page sample_browser) 0
             then ''hidpi-loading'' else ''hidpi-pending'')
     (nodes (page ((checkForHiDPIElements ^^ Suc 2) sample_browser)) 0)"
proof -
  have h1: "\<not> hasClass ''hidpi-ready'' (nodes (page sample_browser) 4)"
    by (simp add: sample_defs hasClass_def)
  have h2: "distinct (document (page sample_browser)) \<and> 0 \<in> set (document (page sample_browser)) \<and>
      hasClass ''hidpi-ready'' (nodes (page sample_browser) 0) \<and>
      js_lt HIDPI_BREAKPOINT (el_width (nodes (page sample_browser) 0))"
    by (simp add: sample_defs hasClass_def HIDPI_BREAKPOINT_def)
  show ?thesis
    using scan_acts_on_ready_elements_once [of sample_browser 4 2 0] h1 h2 by blast
qed

theorem narrow_element_stays_ready_witness:
  "\<not> js_lt HIDPI_BREAKPOINT (el_width (nodes (page sample_browser) 3)) \<and>
   3 < next_node (page sample_browser) \<and> regions_of 3 (zg sample_browser) = [] \<and>
   nodes (page ((checkForHiDPIElements ^^ 2) sample_browser)) 3 = nodes (page sample_browser) 3 \<and>
   load_count 3 (page ((checkForHiDPIElements ^^ 2) sample_browser)) =
     load_count 3 (page sample_browser) \<and>
   regions_of 3 (zg ((checkForHiDPIElements ^^ 2) sample_browser)) = regions_of 3 (zg sample_browser) \<and>
   hasClass ''hidpi-ready'' (nodes (page (run [Scan, Scroll (Finite 4500 0), LoadSuccess 0] sample_browser)) 3) =
     hasClass ''hidpi-ready'' (nodes (page sample_browser) 3) \<and>
   load_count 3 (page (run [Scan, Scroll (Finite 4500 0), LoadSuccess 0] sample_browser)) =
     load_count 3 (page sample_browser) \<and>
   regions_of 3 (zg (run [Scan, Scroll (Finite 4500 0), LoadSuccess 0] sample_browser)) = []"
proof -
  have h1: "\<not> js_lt HIDPI_BREAKPOINT (el_width (nodes (page sample_browser) 3))"
    by (simp add: sample_defs HIDPI_BREAKPOINT_def)
  have h2: "3 < next_node (page sample_browser) \<and> regions_of 3 (zg sample_browser) = []"
    by (simp add: sample_defs regions_of_def)
  show ?thesis
    using narrow_element_stays_ready [OF h1, of 2 "[Scan, Scroll (Finite 4500 0), LoadSuccess 0]"] h1 h2
    by blast
qed

theorem load_error_is_terminal_witness:
  "initial sample_browser \<and>
   loader_fires 0 (page (run [Scan] sample_browser)) = Some (0, ''hi.jpg'') \<and>
   hasClass ''hidpi-error'' (nodes (page (step (LoadError 0) (run [Scan] sample_browser))) 0) \<and>
   (\<forall>evs'. hasClass ''hidpi-error''
               (nodes (page (run evs' (step (LoadError 0) (run [Scan] sample_browser)))) 0) \<and>
       \<not> hasClass ''hidpi-ready''
               (nodes (page (run evs' (step (LoadError 0) (run [Scan] sample_browser)))) 0) \<and>
       nodes (page (checkForHiDPIElements
                 (run evs' (step (LoadError 0) (run [Scan] sample_browser))))) 0 =
         nodes (page (run evs' (step (LoadError 0) (run [Scan] sample_browser)))) 0 \<and>
       load_count 0 (page (run evs' (step (LoadError 0) (run [Scan] sample_browser)))) =
         load_count 0 (page (run [Scan] sample_browser)) \<and>
       regions_of 0 (zg (run evs' (step (LoadError 0) (run [Scan] sample_browser)))) = [])"
proof -
  have f: "loader_fires 0 (page (run [Scan] sample_browser)) = Some (0, ''hi.jpg'')"
    by (simp add: run_def sample_scan) (simp add: sample_scanned_def loader_fires_def)
  show ?thesis
    using load_error_is_terminal [OF sample_initial refl f] sample_initial f by blast
qed

end
